theory Spec2Isabelle
  imports Main "HOL-Library.List_Lexorder" "HOL-Library.Product_Lexorder"
begin

section \<open>Python values and strings\<close>

text \<open>
  A Python \<open>str\<close> is a sequence of Unicode code points; it is modelled as a list of
  natural numbers, one per code point, so that \<open>length\<close> counts what Python's
  \<open>len\<close> counts. ASCII literals are written through \<open>asc\<close>.
\<close>

type_synonym ustr = "nat list"

definition asc :: "string \<Rightarrow> ustr" where
  "asc s = map of_char s"

text \<open>
  The values the normalizer's entry points receive: a string, or \<open>None\<close> (an absent
  subfield or an SQL NULL).
\<close>

datatype pyval = PyNone | Str ustr

subsection \<open>Character classes\<close>

definition ascii_digit :: "nat \<Rightarrow> bool" where
  "ascii_digit c = (0x30 \<le> c \<and> c \<le> 0x39)"

definition ascii_upper_letter :: "nat \<Rightarrow> bool" where
  "ascii_upper_letter c = (0x41 \<le> c \<and> c \<le> 0x5A)"

definition ascii_lower_letter :: "nat \<Rightarrow> bool" where
  "ascii_lower_letter c = (0x61 \<le> c \<and> c \<le> 0x7A)"

definition ascii_alpha :: "nat \<Rightarrow> bool" where
  \<comment> \<open>\<open>c.isascii() and c.isalpha()\<close>\<close>
  "ascii_alpha c = (ascii_upper_letter c \<or> ascii_lower_letter c)"

text \<open>
  The regular-expression class \<open>\d\<close> on a \<open>str\<close> pattern: the ASCII digits, and
  beyond ASCII the decimal digits of the Unicode database. That table is not part of the
  program; it is the parameter \<open>U\<close>, consulted only for code points from 128 on.
\<close>

definition re_digit :: "(nat \<Rightarrow> bool) \<Rightarrow> nat \<Rightarrow> bool" where
  "re_digit U c = (if c < 128 then ascii_digit c else U c)"

text \<open>
  The class \<open>\w\<close>: ASCII letters, digits and the underscore, and beyond ASCII the
  alphanumeric code points of the Unicode database, the parameter \<open>W\<close>.
\<close>

definition re_word :: "(nat \<Rightarrow> bool) \<Rightarrow> nat \<Rightarrow> bool" where
  "re_word W c = (if c < 128 then ascii_alpha c \<or> ascii_digit c \<or> c = 0x5F else W c)"

text \<open>
  Whitespace as \<open>str.strip()\<close>, \<open>str.split()\<close> and the class \<open>\s\<close> see it.
\<close>

definition is_space :: "nat \<Rightarrow> bool" where
  "is_space c =
     ((0x09 \<le> c \<and> c \<le> 0x0D) \<or> (0x1C \<le> c \<and> c \<le> 0x20) \<or> c = 0x85 \<or> c = 0xA0
      \<or> c = 0x1680 \<or> (0x2000 \<le> c \<and> c \<le> 0x200A) \<or> c = 0x2028 \<or> c = 0x2029
      \<or> c = 0x202F \<or> c = 0x205F \<or> c = 0x3000)"

definition strip :: "ustr \<Rightarrow> ustr" where
  \<comment> \<open>\<open>text.strip()\<close>\<close>
  "strip s = rev (dropWhile is_space (rev (dropWhile is_space s)))"

section \<open>Regular expressions\<close>

text \<open>
  A pattern is run as the backtracking matcher runs it: applied to the rest of the
  subject, it returns the rests that remain after each way of matching a prefix, in the
  order the matcher tries them.
\<close>

type_synonym rx = "ustr \<Rightarrow> ustr list"

definition rx_cls :: "(nat \<Rightarrow> bool) \<Rightarrow> rx" where
  \<comment> \<open>one character of a class\<close>
  "rx_cls P s = (case s of [] \<Rightarrow> [] | c # cs \<Rightarrow> if P c then [cs] else [])"

definition rx_chr :: "nat \<Rightarrow> rx" where
  \<comment> \<open>a literal character\<close>
  "rx_chr a = rx_cls (\<lambda>c. c = a)"

definition rx_eps :: rx where
  "rx_eps s = [s]"

definition rx_seq :: "rx \<Rightarrow> rx \<Rightarrow> rx" where
  "rx_seq r1 r2 s = concat (map r2 (r1 s))"

definition rx_alt :: "rx \<Rightarrow> rx \<Rightarrow> rx" where
  \<comment> \<open>\<open>r1|r2\<close>\<close>
  "rx_alt r1 r2 s = r1 s @ r2 s"

definition rx_opt :: "rx \<Rightarrow> rx" where
  \<comment> \<open>\<open>r?\<close>, greedy\<close>
  "rx_opt r = rx_alt r rx_eps"

fun rx_rep :: "nat \<Rightarrow> rx \<Rightarrow> rx" where
  \<comment> \<open>\<open>r{n}\<close>\<close>
  "rx_rep 0 r = rx_eps"
| "rx_rep (Suc n) r = rx_seq r (rx_rep n r)"

fun rx_upto :: "nat \<Rightarrow> rx \<Rightarrow> rx" where
  \<comment> \<open>\<open>r{0,n}\<close>, greedy\<close>
  "rx_upto 0 r = rx_eps"
| "rx_upto (Suc n) r = rx_opt (rx_seq r (rx_upto n r))"

fun rx_star :: "nat \<Rightarrow> rx \<Rightarrow> rx" where
  \<comment> \<open>\<open>r*\<close>; an iteration that consumes nothing ends the loop, so as many rounds as the
      subject has characters are enough\<close>
  "rx_star 0 r s = [s]"
| "rx_star (Suc n) r s =
     concat (map (rx_star n r) (filter (\<lambda>t. length t < length s) (r s))) @ [s]"

definition rx_plus :: "rx \<Rightarrow> rx" where
  \<comment> \<open>\<open>r+\<close>\<close>
  "rx_plus r s = concat (map (\<lambda>t. rx_star (length t) r t) (r s))"

definition at_end :: "ustr \<Rightarrow> bool" where
  \<comment> \<open>\<open>$\<close> without MULTILINE: the end of the string, or just before a final newline\<close>
  "at_end s = (s = [] \<or> s = [0x0A])"

definition re_match_end :: "rx \<Rightarrow> ustr \<Rightarrow> bool" where
  \<comment> \<open>\<open>bool(re.match(r"^...$", s))\<close>\<close>
  "re_match_end r s = list_ex at_end (r s)"

definition re_fullmatch :: "rx \<Rightarrow> ustr \<Rightarrow> bool" where
  "re_fullmatch r s = list_ex (\<lambda>t. t = []) (r s)"

section \<open>Text normalizer (auth_normalize_table.py)\<close>

subsection \<open>Dates\<close>

definition date_char :: "nat \<Rightarrow> bool" where
  \<comment> \<open>the characters \<open>re.sub(r"[^0-9\-?]", "", date_text)\<close> keeps\<close>
  "date_char c = (ascii_digit c \<or> c = 0x2D \<or> c = 0x3F)"

definition rx_year :: "(nat \<Rightarrow> bool) \<Rightarrow> rx" where
  \<comment> \<open>\<open>\d{4}\<close>\<close>
  "rx_year U = rx_rep 4 (rx_cls (re_digit U))"

definition normalize_dates :: "(nat \<Rightarrow> bool) \<Rightarrow> pyval \<Rightarrow> ustr" where
  "normalize_dates U v =
     (case v of
        PyNone \<Rightarrow> []
      | Str date_text \<Rightarrow>
          if strip date_text = [] then []
          else
            let t = filter date_char date_text in
            if re_match_end (rx_seq (rx_year U) (rx_opt (rx_seq (rx_chr 0x2D) (rx_year U)))) t
              then t
            else if re_match_end (rx_seq (rx_year U) (rx_opt (rx_chr 0x2D))) t
              then t
            else if re_match_end (rx_seq (rx_year U) (rx_chr 0x3F)) t
              then butlast t
            else [])"

text \<open>
  The shapes of the allow-list, stated on their own: four ASCII digits; two such years
  joined by a dash; a year and a dash; a year and a question mark.
\<close>

definition shape_year :: "ustr \<Rightarrow> bool" where
  "shape_year t = (length t = 4 \<and> list_all ascii_digit t)"

definition shape_range :: "ustr \<Rightarrow> bool" where
  "shape_range t = (length t = 9 \<and> shape_year (take 4 t) \<and> t ! 4 = 0x2D \<and> shape_year (drop 5 t))"

definition shape_open :: "ustr \<Rightarrow> bool" where
  "shape_open t = (length t = 5 \<and> shape_year (take 4 t) \<and> t ! 4 = 0x2D)"

definition shape_uncertain :: "ustr \<Rightarrow> bool" where
  "shape_uncertain t = (length t = 5 \<and> shape_year (take 4 t) \<and> t ! 4 = 0x3F)"

subsection \<open>ISNI\<close>

definition is_valid_isni :: "(nat \<Rightarrow> bool) \<Rightarrow> ustr \<Rightarrow> bool" where
  \<comment> \<open>\<open>bool(re.match(r'^\d{15}[\dX]$', isni))\<close>\<close>
  "is_valid_isni U isni =
     re_match_end (rx_seq (rx_rep 15 (rx_cls (re_digit U)))
                          (rx_cls (\<lambda>c. re_digit U c \<or> c = 0x58))) isni"

definition isni_char :: "(nat \<Rightarrow> bool) \<Rightarrow> nat \<Rightarrow> bool" where
  \<comment> \<open>the characters \<open>re.sub(r"[^\dXx]", "", isni)\<close> keeps\<close>
  "isni_char U c = (re_digit U c \<or> c = 0x58 \<or> c = 0x78)"

definition normalize_isni :: "(nat \<Rightarrow> bool) \<Rightarrow> pyval \<Rightarrow> ustr" where
  "normalize_isni U v =
     (case v of
        PyNone \<Rightarrow> []
      | Str isni \<Rightarrow>
          if isni = [] then []
          else
            let isni' = filter (isni_char U) isni in
            if is_valid_isni U isni' then isni' else [])"

text \<open>
  The shape that \<open>is_valid_isni\<close> admits, stated on the result: sixteen characters,
  fifteen digits and then a digit or an upper-case X.
\<close>

definition isni_shape :: "(nat \<Rightarrow> bool) \<Rightarrow> ustr \<Rightarrow> bool" where
  "isni_shape U r =
     (length r = 16 \<and> list_all (re_digit U) (take 15 r) \<and> (re_digit U (r ! 15) \<or> r ! 15 = 0x58))"

text \<open>
  A stand-in for the non-ASCII part of the digit table where a concrete table is needed:
  the Arabic-Indic digits U+0660 to U+0669.
\<close>

definition arabic_indic_digit :: "nat \<Rightarrow> bool" where
  "arabic_indic_digit c = (0x660 \<le> c \<and> c \<le> 0x669)"

section \<open>Homoglyph resolver (modules/homoglyph.py)\<close>

definition cyrillic_chars :: ustr where
  "cyrillic_chars = [0x406, 0x456, 0x410, 0x430, 0x412, 0x415, 0x435, 0x41A, 0x41C, 0x41D,
                     0x41E, 0x43E, 0x420, 0x440, 0x421, 0x441, 0x422, 0x443, 0x425, 0x445]"

definition latin_chars :: ustr where
  "latin_chars = asc ''IiAaBEeKMHOoPpCcTyXx''"

definition full_cyrillic :: ustr where
  "full_cyrillic =
     [0x410, 0x430, 0x411, 0x431, 0x412, 0x432, 0x413, 0x433, 0x414, 0x434, 0x415, 0x435,
      0x404, 0x454, 0x416, 0x436, 0x417, 0x437, 0x406, 0x456, 0x42B, 0x44B, 0x418, 0x438,
      0x424, 0x444, 0x419, 0x439, 0x41A, 0x43A, 0x41B, 0x43B, 0x41C, 0x43C, 0x41D, 0x43D,
      0x41E, 0x43E, 0x41F, 0x43F, 0x420, 0x440, 0x421, 0x441, 0x422, 0x442, 0x423, 0x443,
      0x424, 0x444, 0x425, 0x445, 0x426, 0x446, 0x427, 0x447, 0x428, 0x448, 0x429, 0x449,
      0x42D, 0x44D, 0x42E, 0x44E, 0x42F, 0x44F, 0x407, 0x457, 0x42C, 0x44C]"

definition full_latin :: ustr where
  "full_latin = asc ''AaBbCcDdEeFfGgHhIiJjKkLlMmNnOoPpQqRrSsTtUuVvWwXxYyZz''"

definition roman_numerals :: ustr where
  "roman_numerals = asc ''CDMXLVI''"

definition special_cyrillic :: ustr where
  \<comment> \<open>\<open>full_cyrillic.difference(cyrillic_chars)\<close>\<close>
  "special_cyrillic = filter (\<lambda>c. c \<notin> set cyrillic_chars) full_cyrillic"

definition special_latin :: ustr where
  "special_latin = filter (\<lambda>c. c \<notin> set latin_chars) full_latin"

definition meets :: "ustr \<Rightarrow> ustr \<Rightarrow> bool" where
  \<comment> \<open>the truth value of \<open>set(word).intersection(chars)\<close>: the intersection is not empty\<close>
  "meets word chars = list_ex (\<lambda>c. c \<in> set chars) word"

definition is_valid_alphabet_mix :: "ustr \<Rightarrow> bool" where
  "is_valid_alphabet_mix word = (\<not> (meets word full_cyrillic \<and> meets word full_latin))"

definition translate :: "ustr \<Rightarrow> ustr \<Rightarrow> ustr \<Rightarrow> ustr" where
  \<comment> \<open>\<open>word.translate(word.maketrans(src, dst))\<close>; in the table a later pair for the same
      source character replaces an earlier one\<close>
  "translate src dst word =
     map (\<lambda>c. case map_of (rev (zip src dst)) c of None \<Rightarrow> c | Some d \<Rightarrow> d) word"

definition convert_to_latin :: "ustr \<Rightarrow> ustr" where
  "convert_to_latin word = translate cyrillic_chars latin_chars word"

definition convert_to_cyrillic :: "ustr \<Rightarrow> ustr" where
  "convert_to_cyrillic word = translate latin_chars cyrillic_chars word"


fun rx_str :: "ustr \<Rightarrow> rx" where
  \<comment> \<open>a literal string\<close>
  "rx_str [] = rx_eps"
| "rx_str (a # as) = rx_seq (rx_chr a) (rx_str as)"

definition rx_roman :: rx where
  \<comment> \<open>\<open>(?:M{0,4})(?:CM|CD|D?C{0,3})(?:XC|XL|L?X{0,3})(?:IX|IV|V?I{0,3})\<close>\<close>
  "rx_roman =
     rx_seq (rx_upto 4 (rx_chr 0x4D))
    (rx_seq (rx_alt (rx_str (asc ''CM'')) (rx_alt (rx_str (asc ''CD''))
               (rx_seq (rx_opt (rx_chr 0x44)) (rx_upto 3 (rx_chr 0x43)))))
    (rx_seq (rx_alt (rx_str (asc ''XC'')) (rx_alt (rx_str (asc ''XL''))
               (rx_seq (rx_opt (rx_chr 0x4C)) (rx_upto 3 (rx_chr 0x58)))))
            (rx_alt (rx_str (asc ''IX'')) (rx_alt (rx_str (asc ''IV''))
               (rx_seq (rx_opt (rx_chr 0x56)) (rx_upto 3 (rx_chr 0x49)))))))"

definition roman_fullmatch :: "(nat \<Rightarrow> bool) \<Rightarrow> ustr \<Rightarrow> bool" where
  \<comment> \<open>\<open>bool(re.fullmatch(r'(\W|\b)(...)+(\b)', s))\<close>. At the start a non-word character is
      consumed by \<open>\W\<close>, and before a word character \<open>\b\<close> holds; at the end of the
      subject \<open>\b\<close> holds when the last character is a word character.\<close>
  "roman_fullmatch W s =
     (case s of
        [] \<Rightarrow> False
      | c # cs \<Rightarrow>
          re_fullmatch (rx_plus rx_roman) (if re_word W c then s else cs)
          \<and> re_word W (last s))"

function findall_words :: "(nat \<Rightarrow> bool) \<Rightarrow> ustr \<Rightarrow> ustr list" where
  \<comment> \<open>\<open>word_pattern.findall(text)\<close> for \<open>(\w[\w']*\w|\w)\<close>: from a word character the
      match runs over the word characters and apostrophes that follow, back to the last
      word character among them; the scan goes on after the match\<close>
  "findall_words W [] = []"
| "findall_words W (c # cs) =
     (if re_word W c then
        (let run = takeWhile (\<lambda>x. re_word W x \<or> x = 0x27) cs;
             body = rev (dropWhile (\<lambda>x. \<not> re_word W x) (rev run))
         in (c # body) # findall_words W (drop (length body) cs))
      else findall_words W cs)"
  by pat_completeness auto
termination
  by (relation "measure (\<lambda>(W, s). length s)") auto

fun replace_first :: "ustr \<Rightarrow> ustr \<Rightarrow> ustr \<Rightarrow> ustr" where
  \<comment> \<open>\<open>text.replace(old, new, 1)\<close>\<close>
  "replace_first old new [] = (if old = [] then new else [])"
| "replace_first old new (c # cs) =
     (if take (length old) (c # cs) = old then new @ drop (length old) (c # cs)
      else c # replace_first old new cs)"

definition highlight_mismatched_chars :: "ustr \<Rightarrow> ustr" where
  "highlight_mismatched_chars word =
     concat (map (\<lambda>char.
        (if char \<in> set latin_chars then asc ''<f>'' @ [char] @ asc ''</f>'' else [])
        @ (if char \<in> set cyrillic_chars then asc ''<u>'' @ [char] @ asc ''</u>'' else []))
       word)"

text \<open>
  One round of the loop over the words found: \<open>text\<close> is the text as the rounds before
  have left it. The messages printed on the way are not modelled.
\<close>

definition fix_word :: "(nat \<Rightarrow> bool) \<Rightarrow> ustr \<Rightarrow> ustr \<Rightarrow> ustr" where
  "fix_word W text word =
     (if \<not> is_valid_alphabet_mix word then
        if list_all (\<lambda>c. c \<in> set roman_numerals) word
           \<and> roman_fullmatch W (convert_to_latin word)
          then replace_first word (convert_to_latin word) text
        else if meets word special_cyrillic \<and> meets word latin_chars
                \<and> \<not> meets word special_latin
          then replace_first word (convert_to_cyrillic word) text
        else if meets word special_latin \<and> meets word cyrillic_chars
                \<and> \<not> meets word special_cyrillic
          then
            (let text' = replace_first word (convert_to_latin word) text;
                 max_latin_count = length (filter (\<lambda>char. char \<in> set latin_chars) word);
                 max_cyrillic_count = length (filter (\<lambda>char. char \<in> set cyrillic_chars) word)
             in if max_latin_count > max_cyrillic_count
                then replace_first word (highlight_mismatched_chars word) text'
                else text')
        else text
      else text)"

definition fix_homoglyph_errors :: "(nat \<Rightarrow> bool) \<Rightarrow> ustr \<Rightarrow> ustr" where
  "fix_homoglyph_errors W text = foldl (fix_word W) text (findall_words W text)"

definition cyrillic_letter :: "nat \<Rightarrow> bool" where
  "cyrillic_letter c = (0x400 \<le> c \<and> c \<le> 0x481)"

subsection \<open>Text cleaning\<close>

definition superscript_digits :: ustr where
  "superscript_digits = [0x2070, 0xB9, 0xB2, 0xB3, 0x2074, 0x2075, 0x2076, 0x2077, 0x2078, 0x2079]"

definition subscript_digits :: ustr where
  "subscript_digits = [0x2080, 0x2081, 0x2082, 0x2083, 0x2084, 0x2085, 0x2086, 0x2087, 0x2088, 0x2089]"

definition char_conversion :: "(nat \<times> ustr) list" where
  "char_conversion =
     [(0xC6, asc ''AE''), (0xE6, asc ''ae''), (0x152, asc ''OE''), (0x153, asc ''oe''),
      (0x110, asc ''D''), (0x111, asc ''d''), (0xD0, asc ''D''), (0xF0, asc ''d''),
      (0x131, asc ''i''),
      (0x1A0, asc ''O''), (0x1A1, asc ''o''), (0x1AF, asc ''U''), (0x1B0, asc ''u''),
      (0xD8, asc ''O''), (0xF8, asc ''o''), (0xDE, asc ''TH''), (0xFE, asc ''th''),
      (0xDF, asc ''SS''),
      (0xA9, []), (0x2117, []), (0xAE, []),
      (0x2122, []), (0xB0, []), (0xB1, []), (0x2030, [])]"

definition punctuation_rules :: "(nat \<times> ustr) list" where
  "punctuation_rules =
     [(0x21, [0x20]), (0x22, [0x20]), (0x27, []), (0x28, [0x20]), (0x29, [0x20]),
      (0x2D, [0x2D]), (0x5B, []), (0x5D, []), (0x7B, [0x20]), (0x7D, [0x20]),
      (0x3C, [0x20]), (0x3E, [0x20]), (0x3B, [0x20]), (0x3A, [0x20]), (0x2E, [0x2E]),
      (0x3F, [0x20]), (0xBF, [0x20]), (0xA1, [0x20]), (0x2C, [0x20]), (0x2F, [0x20]),
      (0x5C, [0x20]), (0x40, [0x40]), (0x26, [0x26]), (0x2A, [0x20]), (0x7C, [0x20]),
      (0x25, [0x20]), (0x3D, [0x20]), (0x2B, [0x2B]), (0x2212, [0x2D]), (0x2124, [0x20]),
      (0xD7, [0x78]), (0xF7, [0x2F]), (0x2018, [0x20]), (0x2019, [0x20]), (0x201B, [0x20]),
      (0x201C, [0x20]), (0x201D, [0x20]), (0x201E, [0x20]), (0x2027, [0x20]), (0xB7, [0x20])]"

definition chars_to_delete :: ustr where
  "chars_to_delete = [0x2BE, 0x2BF, 0xB7]"

definition join_get :: "(nat \<times> ustr) list \<Rightarrow> ustr \<Rightarrow> ustr" where
  \<comment> \<open>\<open>"".join(table.get(char, char) for char in text)\<close>; in a dictionary display a
      later entry for the same key replaces an earlier one\<close>
  "join_get table text =
     concat (map (\<lambda>char. case map_of (rev table) char of None \<Rightarrow> [char] | Some v \<Rightarrow> v) text)"

function collapse_spaces :: "ustr \<Rightarrow> ustr" where
  \<comment> \<open>\<open>re.sub(r"\s+", " ", text)\<close>: every maximal run of whitespace becomes one space\<close>
  "collapse_spaces [] = []"
| "collapse_spaces (c # cs) =
     (if is_space c then 0x20 # collapse_spaces (dropWhile is_space cs)
      else c # collapse_spaces cs)"
  by pat_completeness auto
termination
  by (relation "measure length") (auto simp: length_dropWhile_le less_Suc_eq_le)

definition is_control :: "nat \<Rightarrow> bool" where
  \<comment> \<open>the class \<open>[\x00-\x1F\x7F]\<close>\<close>
  "is_control c = (c \<le> 0x1F \<or> c = 0x7F)"

definition clean_text :: "pyval \<Rightarrow> ustr" where
  "clean_text v =
     (case v of
        PyNone \<Rightarrow> []
      | Str text \<Rightarrow>
          if strip text = [] then []
          else
            let text = translate superscript_digits (asc ''0123456789'') text;
                text = translate subscript_digits (asc ''0123456789'') text;
                text = join_get char_conversion text;
                text = filter (\<lambda>char. char \<notin> set chars_to_delete) text;
                text = join_get punctuation_rules text;
                text = strip (collapse_spaces text);
                text = filter (\<lambda>c. \<not> is_control c) text
            in text)"

text \<open>
  The five character-wise passes of \<open>clean_text\<close> taken together, and the characters
  that are keys of one of its tables.
\<close>

definition char_passes :: "ustr \<Rightarrow> ustr" where
  "char_passes text =
     join_get punctuation_rules
       (filter (\<lambda>char. char \<notin> set chars_to_delete)
          (join_get char_conversion
             (translate subscript_digits (asc ''0123456789'')
                (translate superscript_digits (asc ''0123456789'') text))))"

definition table_keys :: ustr where
  "table_keys = superscript_digits @ subscript_digits @ map fst char_conversion
                @ chars_to_delete @ map fst punctuation_rules"

text \<open>
  A text in which every whitespace character is a plain space and no two of them are
  adjacent.
\<close>

fun tidy :: "ustr \<Rightarrow> bool" where
  "tidy [] = True"
| "tidy (c # cs) = ((is_space c \<longrightarrow> c = 0x20 \<and> (cs = [] \<or> \<not> is_space (hd cs))) \<and> tidy cs)"

section \<open>Blocking keys (auth_deduplication.py)\<close>

text \<open>
  The third-party functions the blocking key calls are not part of the program; the key is
  modelled over any choice of them: \<open>soundex\<close> for \<open>jellyfish.soundex\<close>, \<open>translit\<close>
  for \<open>transliterate.translit(text, lc, reversed=True)\<close> (given the text and the language
  code), and \<open>wide_lower\<close> for \<open>str.lower\<close> on strings that are not pure ASCII.
\<close>

record packages =
  soundex :: "ustr \<Rightarrow> ustr"
  translit :: "ustr \<Rightarrow> ustr \<Rightarrow> ustr"
  wide_lower :: "ustr \<Rightarrow> ustr"

definition ascii_upper :: "nat \<Rightarrow> nat" where
  "ascii_upper c = (if ascii_lower_letter c then c - 0x20 else c)"

definition ascii_lower :: "nat \<Rightarrow> nat" where
  "ascii_lower c = (if ascii_upper_letter c then c + 0x20 else c)"

definition str_lower :: "packages \<Rightarrow> ustr \<Rightarrow> ustr" where
  \<comment> \<open>\<open>lang.lower()\<close>\<close>
  "str_lower L s = (if list_all (\<lambda>c. c < 128) s then map ascii_lower s else wide_lower L s)"

definition truthy :: "pyval \<Rightarrow> bool" where
  \<comment> \<open>the truth value of a string or \<open>None\<close>: a string that is not empty\<close>
  "truthy v = (case v of PyNone \<Rightarrow> False | Str s \<Rightarrow> s \<noteq> [])"

definition lang_map :: "(ustr \<times> ustr) list" where
  "lang_map = [(asc ''rus'', asc ''ru''), (asc ''ukr'', asc ''uk''), (asc ''bul'', asc ''bg'')]"

definition custom_cyrillic_function :: "packages \<Rightarrow> pyval \<Rightarrow> pyval \<Rightarrow> ustr" where
  "custom_cyrillic_function L entryname lang =
     (case (entryname, lang) of
        (Str e, Str l) \<Rightarrow>
          if e = [] \<or> l = [] then []
          else
            let lc = (case map_of (rev lang_map) (str_lower L l) of
                        None \<Rightarrow> asc ''ru'' | Some x \<Rightarrow> x);
                transliterated = translit L e lc;
                code = soundex L transliterated
            in if code \<noteq> [] then hd e # tl code else []
      | _ \<Rightarrow> [])"

definition blocking_key_udf :: "packages \<Rightarrow> pyval \<Rightarrow> pyval \<Rightarrow> ustr" where
  "blocking_key_udf L entryname lang =
     (case entryname of
        PyNone \<Rightarrow> []
      | Str e \<Rightarrow>
          if e = [] then []
          else if ascii_alpha (hd e) then soundex L e
          else custom_cyrillic_function L entryname lang)"

text \<open>
  Modelled from the spec: the phonetic code of the third-party package, which is not under
  src/, as the Soundex algorithm on ASCII text: the first letter is retained in upper case,
  the consonants that follow are mapped to their digit classes, a digit equal to the one
  before it is dropped unless a vowel stands between the two, and the code is cut or
  padded with zeros to four characters.
\<close>

definition soundex_class :: "nat \<Rightarrow> nat option" where
  "soundex_class c =
     (if c \<in> set (asc ''BFPV'') then Some 0x31
      else if c \<in> set (asc ''CGJKQSXZ'') then Some 0x32
      else if c \<in> set (asc ''DT'') then Some 0x33
      else if c = 0x4C then Some 0x34
      else if c \<in> set (asc ''MN'') then Some 0x35
      else if c = 0x52 then Some 0x36
      else None)"

fun soundex_scan :: "nat option \<Rightarrow> nat \<Rightarrow> ustr \<Rightarrow> ustr" where
  "soundex_scan last_sub count [] = []"
| "soundex_scan last_sub count (letter # rest) =
     (case soundex_class letter of
        Some sub \<Rightarrow>
          if Some sub \<noteq> last_sub
          then sub # (if Suc count = 4 then [] else soundex_scan (Some sub) (Suc count) rest)
          else soundex_scan (Some sub) count rest
      | None \<Rightarrow>
          soundex_scan (if letter \<noteq> 0x48 \<and> letter \<noteq> 0x57 then None else last_sub) count rest)"

definition soundex_code :: "ustr \<Rightarrow> ustr" where
  "soundex_code s =
     (if s = [] then []
      else
        let u = map ascii_upper s;
            digits = soundex_scan (soundex_class (hd u)) 1 (tl u)
        in hd u # digits @ replicate (3 - length digits) 0x30)"

text \<open>
  A stand-in for the transliteration table of the third-party package, where a concrete
  one is needed: its entries for the Cyrillic letters of the scenario; every other
  character is left as it is.
\<close>

definition translit_sample :: "ustr \<Rightarrow> ustr" where
  "translit_sample text =
     concat (map (\<lambda>c. case map_of
        [(0x428, asc ''Sh''), (0x435, asc ''e''), (0x432, asc ''v''), (0x447, asc ''ch''),
         (0x43D, asc ''n''), (0x43A, asc ''k''), (0x43E, asc ''o'')] c of
          None \<Rightarrow> [c] | Some v \<Rightarrow> v) text)"

definition sample_packages :: packages where
  "sample_packages =
     \<lparr>soundex = soundex_code, translit = (\<lambda>text lc. translit_sample text), wide_lower = (\<lambda>s. s)\<rparr>"

definition shevchenko_cyrillic :: ustr where
  "shevchenko_cyrillic = [0x428, 0x435, 0x432, 0x447, 0x435, 0x43D, 0x43A, 0x43E]"

section \<open>Cluster assignments and merge links (auth_deduplication.py)\<close>

text \<open>
  One row of the clustering frame \<open>df_clusters\<close>, with the columns the program reads.
  The frame is what the third-party clustering call returns; it is an input here.
  \<open>lang\<close> and \<open>used_count\<close> may be missing (NULL in the tables they come from).
\<close>

record row =
  row_id :: int
  auth_id :: int
  server_id :: int
  field :: int
  cluster_id :: int
  lang :: pyval
  source_authid :: ustr
  used_count :: "int option"
  full_name :: ustr

datatype py_error = ValueError

subsection \<open>Cluster assignments\<close>

definition cluster_results :: "row list \<Rightarrow> (int \<times> int) list" where
  \<comment> \<open>the loop over \<open>df_clusters.iterrows()\<close>: one pair \<open>(auth_id, cluster_id)\<close> per row\<close>
  "cluster_results df_clusters = map (\<lambda>r. (auth_id r, cluster_id r)) df_clusters"

function batches :: "nat \<Rightarrow> 'a list \<Rightarrow> 'a list list" where
  \<comment> \<open>\<open>data[i:i + batch_size]\<close> for \<open>i\<close> in \<open>range(0, len(data), batch_size)\<close>\<close>
  "batches n xs = (if xs = [] \<or> n = 0 then [] else take n xs # batches n (drop n xs))"
  by pat_completeness auto
termination
  by (relation "measure (\<lambda>(n, xs). length xs)") auto

definition insert_many :: "'a list \<Rightarrow> nat \<Rightarrow> py_error + 'a list list" where
  \<comment> \<open>the batches handed to \<open>executemany\<close>, in order; no data, no insert; a step of zero
      makes \<open>range\<close> raise. Errors of the database itself are not modelled.\<close>
  "insert_many data batch_size =
     (if data = [] then Inr []
      else if batch_size = 0 then Inl ValueError
      else Inr (batches batch_size data))"

definition members_of :: "int \<Rightarrow> row list \<Rightarrow> row list" where
  \<comment> \<open>the rows of the frame that carry a cluster id\<close>
  "members_of c df_clusters = filter (\<lambda>r. cluster_id r = c) df_clusters"

subsection \<open>Merge links\<close>

text \<open>
  A line of a server's link file, by its parts: the server's domain, the two authority ids
  of the URL, the cluster id and the two names. The file holds the lines of a server
  sorted and without repetitions; the model keeps them in the order they are produced.
\<close>

record merge_link =
  link_domain :: ustr
  canonical :: ustr
  duplicate :: ustr
  link_cluster :: int
  canonical_name :: ustr
  duplicate_name :: ustr

fun drop_duplicates :: "ustr list \<Rightarrow> row list \<Rightarrow> row list" where
  \<comment> \<open>\<open>drop_duplicates('source_authid', keep='first')\<close>; the first argument holds the ids
      already met\<close>
  "drop_duplicates seen [] = []"
| "drop_duplicates seen (r # rs) =
     (if source_authid r \<in> set seen then drop_duplicates seen rs
      else r # drop_duplicates (source_authid r # seen) rs)"

definition dedupe_members :: "row list \<Rightarrow> row list" where
  \<comment> \<open>\<open>cluster.sort_values(['source_authid', 'field']).drop_duplicates('source_authid',
      keep='first')\<close>: of the rows of one authority id the one with the lowest field stays\<close>
  "dedupe_members cluster =
     drop_duplicates [] (sort_key (\<lambda>r. (source_authid r, field r)) cluster)"

definition pick_main :: "row list \<Rightarrow> row" where
  \<comment> \<open>the highest \<open>used_count\<close>, and among the rows that have it the first by \<open>id\<close>\<close>
  "pick_main unique =
     (let max_uc = Max (set (map (\<lambda>r. the (used_count r)) unique));
          tied = filter (\<lambda>r. the (used_count r) = max_uc) unique
      in hd (sort_key row_id tied))"

definition merge_line :: "ustr \<Rightarrow> int \<Rightarrow> row \<Rightarrow> row \<Rightarrow> merge_link" where
  "merge_line domain cid main rec =
     \<lparr>link_domain = domain,
      canonical = source_authid main,
      duplicate = source_authid rec,
      link_cluster = cid,
      canonical_name = full_name main,
      duplicate_name = full_name rec\<rparr>"

definition group_links :: "ustr \<Rightarrow> int \<Rightarrow> row list \<Rightarrow> py_error + merge_link list" where
  \<comment> \<open>the body of the loop over the groups of one server: \<open>cluster\<close> holds the rows of one
      cluster id and language. \<open>astype(int)\<close> raises on a missing usage count.\<close>
  "group_links domain cid cluster =
     (if length cluster < 2 then Inr []
      else
        let unique = dedupe_members cluster
        in if length unique < 2 then Inr []
           else if list_ex (\<lambda>r. used_count r = None) unique then Inl ValueError
           else
             let main = pick_main unique;
                 others = filter (\<lambda>r. source_authid r \<noteq> source_authid main) unique
             in Inr (map (merge_line domain cid main) others))"

definition group_keys :: "row list \<Rightarrow> (int \<times> ustr) list" where
  \<comment> \<open>the keys of \<open>groupby(['cluster_id', 'lang'], sort=True)\<close>: rows without a language
      belong to no group\<close>
  "group_keys srv_grp =
     sort (remdups (concat (map (\<lambda>r. case lang r of PyNone \<Rightarrow> [] | Str lg \<Rightarrow> [(cluster_id r, lg)])
                             srv_grp)))"

fun collect_links :: "ustr \<Rightarrow> row list \<Rightarrow> (int \<times> ustr) list \<Rightarrow> py_error + merge_link list" where
  "collect_links domain srv_grp [] = Inr []"
| "collect_links domain srv_grp ((cid, lg) # keys) =
     (case group_links domain cid (filter (\<lambda>r. cluster_id r = cid \<and> lang r = Str lg) srv_grp) of
        Inl e \<Rightarrow> Inl e
      | Inr ls \<Rightarrow>
          (case collect_links domain srv_grp keys of
             Inl e \<Rightarrow> Inl e
           | Inr ms \<Rightarrow> Inr (ls @ ms)))"

fun server_links ::
  "(int \<rightharpoonup> ustr) \<Rightarrow> row list \<Rightarrow> int list \<Rightarrow> (int \<times> merge_link list) list \<times> py_error option"
where
  \<comment> \<open>the loop over the servers: the files written, and the error that ended the loop\<close>
  "server_links srv_map df_clusters [] = ([], None)"
| "server_links srv_map df_clusters (srv # srvs) =
     (let srv_grp = filter (\<lambda>r. field r \<in> {200, 400})
                      (filter (\<lambda>r. server_id r = srv) df_clusters)
      in if srv_grp = [] then server_links srv_map df_clusters srvs
         else
           (case srv_map srv of
              None \<Rightarrow> server_links srv_map df_clusters srvs
            | Some domain \<Rightarrow>
                if domain = [] then server_links srv_map df_clusters srvs
                else
                  (case collect_links domain srv_grp (group_keys srv_grp) of
                     Inl e \<Rightarrow> ([], Some e)
                   | Inr merge_lines \<Rightarrow>
                       (let (files, err) = server_links srv_map df_clusters srvs
                        in ((if merge_lines \<noteq> [] then [(srv, merge_lines)] else []) @ files,
                            err)))))"

definition generate_links ::
  "(int \<rightharpoonup> ustr) \<Rightarrow> row list \<Rightarrow> (int \<times> merge_link list) list \<times> py_error option"
where
  "generate_links srv_map df_clusters =
     server_links srv_map df_clusters (sort (remdups (map server_id df_clusters)))"

definition variant_pair :: "row list" where
  "variant_pair =
     [\<lparr>row_id = 1, auth_id = 11, server_id = 7, field = 400, cluster_id = 5,
       lang = Str (asc ''ukr''), source_authid = asc ''101'', used_count = Some 3,
       full_name = asc ''A''\<rparr>,
      \<lparr>row_id = 2, auth_id = 12, server_id = 7, field = 400, cluster_id = 5,
       lang = Str (asc ''ukr''), source_authid = asc ''102'', used_count = Some 1,
       full_name = asc ''B''\<rparr>]"

definition tied_group :: "row list" where
  "tied_group =
     [\<lparr>row_id = 9, auth_id = 21, server_id = 7, field = 200, cluster_id = 5,
       lang = Str (asc ''ukr''), source_authid = asc ''201'', used_count = Some 4,
       full_name = asc ''A''\<rparr>,
      \<lparr>row_id = 3, auth_id = 22, server_id = 7, field = 400, cluster_id = 5,
       lang = Str (asc ''ukr''), source_authid = asc ''202'', used_count = Some 4,
       full_name = asc ''B''\<rparr>,
      \<lparr>row_id = 4, auth_id = 23, server_id = 7, field = 200, cluster_id = 5,
       lang = Str (asc ''ukr''), source_authid = asc ''203'', used_count = Some 2,
       full_name = asc ''C''\<rparr>]"

definition split_entity :: "row list" where
  "split_entity =
     [\<lparr>row_id = 1, auth_id = 7, server_id = 1, field = 200, cluster_id = 1,
       lang = Str (asc ''eng''), source_authid = asc ''70'', used_count = Some 0,
       full_name = asc ''A''\<rparr>,
      \<lparr>row_id = 2, auth_id = 7, server_id = 1, field = 400, cluster_id = 2,
       lang = Str (asc ''eng''), source_authid = asc ''70'', used_count = Some 0,
       full_name = asc ''B''\<rparr>]"

definition linked_and_main :: "row list" where
  "linked_and_main =
     [\<lparr>row_id = 1, auth_id = 30, server_id = 7, field = 700, cluster_id = 5,
       lang = Str (asc ''ukr''), source_authid = asc ''300'', used_count = Some 9,
       full_name = asc ''A''\<rparr>,
      \<lparr>row_id = 2, auth_id = 31, server_id = 7, field = 200, cluster_id = 5,
       lang = Str (asc ''ukr''), source_authid = asc ''301'', used_count = Some 3,
       full_name = asc ''B''\<rparr>,
      \<lparr>row_id = 3, auth_id = 32, server_id = 7, field = 400, cluster_id = 5,
       lang = Str (asc ''ukr''), source_authid = asc ''302'', used_count = Some 1,
       full_name = asc ''C''\<rparr>]"

section \<open>Properties\<close>

lemma asc_simps [simp]: "asc [] = []" "asc (c # cs) = of_char c # asc cs"
  by (simp_all add: asc_def)

subsection \<open>The matcher on classes and repetitions\<close>

lemma rx_cls_simps: "rx_cls P [] = []" "rx_cls P (c # cs) = (if P c then [cs] else [])"
  by (simp_all add: rx_cls_def)

lemma rx_rep_cls:
  "rx_rep n (rx_cls P) s = (if n \<le> length s \<and> list_all P (take n s) then [drop n s] else [])"
proof (induction n arbitrary: s)
  case 0
  then show ?case by (simp add: rx_eps_def)
next
  case (Suc n)
  show ?case
  proof (cases s)
    case Nil
    then show ?thesis by (simp add: rx_seq_def rx_cls_simps)
  next
    case (Cons c cs)
    then show ?thesis by (cases "P c") (simp_all add: rx_seq_def rx_cls_simps Suc)
  qed
qed

lemma rx_rep_cls_mem:
  "u \<in> set (rx_rep n (rx_cls P) s) \<longleftrightarrow> (\<exists>y. s = y @ u \<and> length y = n \<and> list_all P y)"
proof
  assume "u \<in> set (rx_rep n (rx_cls P) s)"
  then have "s = take n s @ u \<and> length (take n s) = n \<and> list_all P (take n s)"
    by (auto simp: rx_rep_cls split: if_splits)
  then show "\<exists>y. s = y @ u \<and> length y = n \<and> list_all P y" by blast
next
  assume "\<exists>y. s = y @ u \<and> length y = n \<and> list_all P y"
  then show "u \<in> set (rx_rep n (rx_cls P) s)" by (auto simp: rx_rep_cls)
qed

lemma rx_cls_mem: "u \<in> set (rx_cls P s) \<longleftrightarrow> (\<exists>c. s = c # u \<and> P c)"
  by (cases s) (auto simp: rx_cls_simps)

lemma rx_chr_mem: "u \<in> set (rx_chr a s) \<longleftrightarrow> s = a # u"
  by (auto simp: rx_chr_def rx_cls_mem)

lemma rx_seq_mem: "u \<in> set (rx_seq r1 r2 s) \<longleftrightarrow> (\<exists>v. v \<in> set (r1 s) \<and> u \<in> set (r2 v))"
  by (auto simp: rx_seq_def)

lemma rx_opt_mem: "u \<in> set (rx_opt r s) \<longleftrightarrow> u \<in> set (r s) \<or> u = s"
  by (auto simp: rx_opt_def rx_alt_def rx_eps_def)

lemma re_match_end_iff: "re_match_end r s \<longleftrightarrow> (\<exists>u. u \<in> set (r s) \<and> at_end u)"
  by (auto simp add: re_match_end_def list_ex_iff)

lemma rx_year_eq:
  "rx_year U s = (if 4 \<le> length s \<and> list_all (re_digit U) (take 4 s) then [drop 4 s] else [])"
  by (simp add: rx_year_def rx_rep_cls)

lemma rx_year_mem:
  "u \<in> set (rx_year U s) \<longleftrightarrow> (\<exists>y. s = y @ u \<and> length y = 4 \<and> list_all (re_digit U) y)"
  by (simp add: rx_year_def rx_rep_cls_mem)

lemmas rx_compute = re_match_end_def rx_seq_def rx_opt_def rx_alt_def rx_eps_def rx_year_eq
  rx_chr_def rx_cls_simps at_end_def

lemmas rx_members = re_match_end_iff rx_seq_mem rx_opt_mem rx_year_mem rx_chr_mem

subsection \<open>Dates\<close>

lemma date_char_ascii: "date_char c \<Longrightarrow> c < 128"
  by (auto simp: date_char_def ascii_digit_def)

lemma date_digits:
  "list_all date_char y \<Longrightarrow> list_all (re_digit U) y = list_all ascii_digit y"
  by (induction y) (auto simp: re_digit_def date_char_ascii)

lemma at_end_date: "list_all date_char u \<Longrightarrow> at_end u = (u = [])"
  by (auto simp: at_end_def date_char_def ascii_digit_def)

lemma shape_range_iff:
  "shape_range t \<longleftrightarrow> (\<exists>y z. t = y @ 0x2D # z \<and> shape_year y \<and> shape_year z)"
proof
  assume a: "shape_range t"
  then have "t = take 4 t @ t ! 4 # drop 5 t"
    using id_take_nth_drop[of 4 t] by (simp add: shape_range_def)
  with a show "\<exists>y z. t = y @ 0x2D # z \<and> shape_year y \<and> shape_year z"
    unfolding shape_range_def by metis
next
  assume "\<exists>y z. t = y @ 0x2D # z \<and> shape_year y \<and> shape_year z"
  then show "shape_range t" by (auto simp: shape_range_def shape_year_def nth_append)
qed

lemma shape_open_iff: "shape_open t \<longleftrightarrow> (\<exists>y. t = y @ [0x2D] \<and> shape_year y)"
proof
  assume a: "shape_open t"
  then have "t = take 4 t @ t ! 4 # drop 5 t"
    using id_take_nth_drop[of 4 t] by (simp add: shape_open_def)
  with a show "\<exists>y. t = y @ [0x2D] \<and> shape_year y"
    unfolding shape_open_def by (metis drop_all order_refl)
next
  assume "\<exists>y. t = y @ [0x2D] \<and> shape_year y"
  then show "shape_open t" by (auto simp: shape_open_def shape_year_def nth_append)
qed

lemma shape_uncertain_iff: "shape_uncertain t \<longleftrightarrow> (\<exists>y. t = y @ [0x3F] \<and> shape_year y)"
proof
  assume a: "shape_uncertain t"
  then have "t = take 4 t @ t ! 4 # drop 5 t"
    using id_take_nth_drop[of 4 t] by (simp add: shape_uncertain_def)
  with a show "\<exists>y. t = y @ [0x3F] \<and> shape_year y"
    unfolding shape_uncertain_def by (metis drop_all order_refl)
next
  assume "\<exists>y. t = y @ [0x3F] \<and> shape_year y"
  then show "shape_uncertain t" by (auto simp: shape_uncertain_def shape_year_def nth_append)
qed

lemma match_year_or_range:
  assumes "list_all date_char t"
  shows "re_match_end (rx_seq (rx_year U) (rx_opt (rx_seq (rx_chr 0x2D) (rx_year U)))) t
           = (shape_year t \<or> shape_range t)" (is "?L = ?R")
proof
  assume ?L
  with assms show ?R
    by (auto simp: rx_members shape_range_iff date_digits at_end_date shape_year_def)
next
  assume ?R
  with assms show ?L
    by (auto simp: shape_range_iff shape_year_def rx_compute date_digits)
qed

lemma match_year_open:
  assumes "list_all date_char t"
  shows "re_match_end (rx_seq (rx_year U) (rx_opt (rx_chr 0x2D))) t
           = (shape_year t \<or> shape_open t)" (is "?L = ?R")
proof
  assume ?L
  with assms show ?R
    by (auto simp: rx_members shape_open_iff date_digits at_end_date shape_year_def)
next
  assume ?R
  with assms show ?L
    by (auto simp: shape_open_iff shape_year_def rx_compute date_digits)
qed

lemma match_year_uncertain:
  assumes "list_all date_char t"
  shows "re_match_end (rx_seq (rx_year U) (rx_chr 0x3F)) t = shape_uncertain t" (is "?L = ?R")
proof
  assume ?L
  with assms show ?R
    by (auto simp: rx_members shape_uncertain_iff date_digits at_end_date shape_year_def)
next
  assume ?R
  with assms show ?L
    by (auto simp: shape_uncertain_iff shape_year_def rx_compute date_digits)
qed

lemma strip_empty: "strip s = [] \<Longrightarrow> list_all is_space s"
proof -
  assume a: "strip s = []"
  then have "\<forall>x\<in>set (dropWhile is_space s). is_space x"
    by (simp add: strip_def dropWhile_eq_Nil_conv)
  then have "dropWhile is_space s = []"
    using hd_dropWhile[of is_space s] by (metis hd_in_set)
  then show ?thesis by (simp add: dropWhile_eq_Nil_conv list_all_iff)
qed

lemma space_not_date: "is_space c \<Longrightarrow> \<not> date_char c"
  by (auto simp: is_space_def date_char_def ascii_digit_def)

lemma blank_no_date_chars: "strip s = [] \<Longrightarrow> filter date_char s = []"
  using strip_empty[of s] by (auto simp: list_all_iff filter_empty_conv space_not_date)

lemma shape_nonempty:
  "shape_year [] = False" "shape_range [] = False" "shape_open [] = False"
  "shape_uncertain [] = False"
  by (simp_all add: shape_year_def shape_range_def shape_open_def shape_uncertain_def)

lemma butlast_uncertain: "shape_uncertain t \<Longrightarrow> butlast t = take 4 t"
  by (simp add: shape_uncertain_def butlast_conv_take)

lemma normalize_dates_shapes:
  "normalize_dates U (Str s) =
     (let t = filter date_char s in
      if shape_year t \<or> shape_range t \<or> shape_open t then t
      else if shape_uncertain t then take 4 t else [])"
proof (cases "strip s = []")
  case True
  then show ?thesis
    by (simp add: normalize_dates_def blank_no_date_chars shape_nonempty)
next
  case False
  have d: "list_all date_char (filter date_char s)" by (simp add: list_all_iff)
  show ?thesis using False
    by (auto simp: normalize_dates_def Let_def match_year_or_range[OF d] match_year_open[OF d]
        match_year_uncertain[OF d] butlast_uncertain)
qed

lemmas date_eval = normalize_dates_shapes date_char_def ascii_digit_def shape_year_def
  shape_range_def shape_open_def shape_uncertain_def

text \<open>
  C1, as the claim states it, fails: the validator first discards every character other
  than a digit, a dash or a question mark, so \<open>"c.1900"\<close> is read as \<open>"1900"\<close> and is
  returned, not rejected.
\<close>

theorem normalize_dates_c1900_counterexample:
  "normalize_dates arabic_indic_digit (Str (asc ''c.1900'')) = asc ''1900''
   \<and> normalize_dates arabic_indic_digit (Str (asc ''c.1900'')) \<noteq> []"
  by (simp add: date_eval)

text \<open>
  C1, amended: the allow-list is applied to the input with every character other than a
  digit, a dash and a question mark removed. If what remains has the shape YYYY,
  YYYY-YYYY or YYYY- it is returned; if it has the shape YYYY? the four digits are
  returned; anything else, and \<open>None\<close>, gives the empty string. So \<open>"1900-1975"\<close> is kept,
  \<open>"1900?"\<close> gives \<open>"1900"\<close>, and \<open>"c.1900"\<close> gives \<open>"1900"\<close>.
\<close>

theorem normalize_dates_allow_list:
  "normalize_dates U (Str s) =
     (let t = filter date_char s in
      if shape_year t \<or> shape_range t \<or> shape_open t then t
      else if shape_uncertain t then take 4 t else [])
   \<and> normalize_dates U PyNone = []
   \<and> normalize_dates U (Str (asc ''1900-1975'')) = asc ''1900-1975''
   \<and> normalize_dates U (Str (asc ''1900?'')) = asc ''1900''
   \<and> normalize_dates U (Str (asc ''c.1900'')) = asc ''1900''"
proof -
  have "normalize_dates U PyNone = []"
    by (simp add: normalize_dates_def)
  moreover have "normalize_dates U (Str (asc ''1900-1975'')) = asc ''1900-1975''"
    by (simp add: date_eval)
  moreover have "normalize_dates U (Str (asc ''1900?'')) = asc ''1900''"
    by (simp add: date_eval)
  moreover have "normalize_dates U (Str (asc ''c.1900'')) = asc ''1900''"
    by (simp add: date_eval)
  ultimately show ?thesis
    using normalize_dates_shapes[of U s] by simp
qed

theorem normalize_dates_allow_list_witness:
  "normalize_dates arabic_indic_digit (Str (asc ''ca. 1850-'')) = asc ''1850-''
   \<and> normalize_dates arabic_indic_digit (Str (asc ''18501'')) = []"
proof -
  have "normalize_dates arabic_indic_digit (Str (asc ''ca. 1850-'')) = asc ''1850-''"
    using normalize_dates_allow_list[of arabic_indic_digit "asc ''ca. 1850-''"]
    by (simp add: date_char_def ascii_digit_def shape_year_def shape_range_def shape_open_def
        shape_uncertain_def)
  moreover have "normalize_dates arabic_indic_digit (Str (asc ''18501'')) = []"
    using normalize_dates_allow_list[of arabic_indic_digit "asc ''18501''"]
    by (simp add: date_char_def ascii_digit_def shape_year_def shape_range_def shape_open_def
        shape_uncertain_def)
  ultimately show ?thesis by simp
qed

subsection \<open>ISNI\<close>

lemma isni_char_not_newline: "isni_char U c \<Longrightarrow> c \<noteq> 0x0A"
  by (auto simp: isni_char_def re_digit_def ascii_digit_def)

lemma at_end_isni: "list_all (isni_char U) u \<Longrightarrow> at_end u = (u = [])"
  by (auto simp: at_end_def dest: isni_char_not_newline)

lemma isni_shape_iff:
  "isni_shape U t \<longleftrightarrow>
     (\<exists>y c. t = y @ [c] \<and> length y = 15 \<and> list_all (re_digit U) y \<and> (re_digit U c \<or> c = 0x58))"
proof
  assume a: "isni_shape U t"
  then have "t = take 15 t @ [t ! 15]"
    using id_take_nth_drop[of 15 t] by (simp add: isni_shape_def)
  moreover have "length (take 15 t) = 15"
    using a by (simp add: isni_shape_def)
  ultimately show "\<exists>y c. t = y @ [c] \<and> length y = 15 \<and> list_all (re_digit U) y
      \<and> (re_digit U c \<or> c = 0x58)"
    using a unfolding isni_shape_def by blast
next
  assume "\<exists>y c. t = y @ [c] \<and> length y = 15 \<and> list_all (re_digit U) y
      \<and> (re_digit U c \<or> c = 0x58)"
  then show "isni_shape U t" by (auto simp: isni_shape_def nth_append)
qed

lemma is_valid_isni_filtered:
  assumes "list_all (isni_char U) t"
  shows "is_valid_isni U t = isni_shape U t" (is "?L = ?R")
proof
  assume ?L with assms show ?R
    by (auto simp: is_valid_isni_def re_match_end_iff rx_seq_mem rx_rep_cls_mem rx_cls_mem
        isni_shape_iff at_end_isni)
next
  assume ?R with assms show ?L
    by (auto simp: is_valid_isni_def isni_shape_iff re_match_end_def rx_seq_def rx_rep_cls
        rx_cls_simps at_end_def)
qed

lemma re_digit_not_x: "\<not> re_digit U 0x78"
  by (simp add: re_digit_def ascii_digit_def)

lemma normalize_isni_filtered:
  "normalize_isni U (Str s) =
     (if isni_shape U (filter (isni_char U) s) then filter (isni_char U) s else [])"
proof -
  have d: "list_all (isni_char U) (filter (isni_char U) s)" by (simp add: list_all_iff)
  show ?thesis
    by (auto simp: normalize_isni_def Let_def is_valid_isni_filtered[OF d] isni_shape_def)
qed

text \<open>
  C10: \<open>normalize_isni\<close> returns the empty string, or sixteen characters of which the
  first fifteen are digits (the class \<open>\d\<close>) and the last is a digit or an upper-case X,
  never a lower-case x. The result is the input reduced to digits, X and x when that has
  this shape, and the empty string otherwise.
\<close>

theorem normalize_isni_sixteen:
  "(normalize_isni U v = [] \<or>
      (length (normalize_isni U v) = 16
       \<and> list_all (re_digit U) (take 15 (normalize_isni U v))
       \<and> (re_digit U (normalize_isni U v ! 15) \<or> normalize_isni U v ! 15 = 0x58)
       \<and> normalize_isni U v ! 15 \<noteq> 0x78))
   \<and> (case v of
         PyNone \<Rightarrow> normalize_isni U v = []
       | Str s \<Rightarrow> normalize_isni U v =
           (if isni_shape U (filter (isni_char U) s) then filter (isni_char U) s else []))"
proof (cases v)
  case PyNone
  then show ?thesis by (simp add: normalize_isni_def)
next
  case (Str s)
  then show ?thesis
    using re_digit_not_x[of U]
    by (auto simp: normalize_isni_filtered isni_shape_def)
qed

theorem normalize_isni_sixteen_witness:
  "normalize_isni arabic_indic_digit (Str (asc ''0000 0001 2345 678X'')) = asc ''000000012345678X''
   \<and> normalize_isni arabic_indic_digit (Str (asc ''0000 0001 2345 678x'')) = []"
proof -
  have "normalize_isni arabic_indic_digit (Str (asc ''0000 0001 2345 678X''))
          = asc ''000000012345678X''"
    using normalize_isni_sixteen[of arabic_indic_digit "Str (asc ''0000 0001 2345 678X'')"]
    by (simp add: isni_shape_def isni_char_def re_digit_def ascii_digit_def)
  moreover have "normalize_isni arabic_indic_digit (Str (asc ''0000 0001 2345 678x'')) = []"
    using normalize_isni_sixteen[of arabic_indic_digit "Str (asc ''0000 0001 2345 678x'')"]
    by (simp add: isni_shape_def isni_char_def re_digit_def ascii_digit_def)
  ultimately show ?thesis by simp
qed

subsection \<open>Homoglyph maps\<close>

lemmas homoglyph_tables = cyrillic_chars_def latin_chars_def full_cyrillic_def full_latin_def
  roman_numerals_def special_cyrillic_def special_latin_def

lemma convert_char_back_latin:
  "c \<notin> set cyrillic_chars \<Longrightarrow> convert_to_latin (convert_to_cyrillic [c]) = [c]"
  by (simp add: convert_to_latin_def convert_to_cyrillic_def translate_def cyrillic_chars_def
      latin_chars_def)

lemma convert_char_back_cyrillic:
  "c \<notin> set latin_chars \<Longrightarrow> convert_to_cyrillic (convert_to_latin [c]) = [c]"
  by (simp add: convert_to_latin_def convert_to_cyrillic_def translate_def cyrillic_chars_def
      latin_chars_def)

lemma convert_Cons:
  "convert_to_latin (c # w) = convert_to_latin [c] @ convert_to_latin w"
  "convert_to_cyrillic (c # w) = convert_to_cyrillic [c] @ convert_to_cyrillic w"
  by (simp_all add: convert_to_latin_def convert_to_cyrillic_def translate_def)

lemma convert_length1:
  "\<exists>d. convert_to_latin [c] = [d]" "\<exists>d. convert_to_cyrillic [c] = [d]"
  by (simp_all add: convert_to_latin_def convert_to_cyrillic_def translate_def)

lemma latin_of_cyrillic:
  "set w \<inter> set cyrillic_chars = {} \<Longrightarrow> convert_to_latin (convert_to_cyrillic w) = w"
proof (induction w)
  case Nil
  then show ?case by (simp add: convert_to_latin_def convert_to_cyrillic_def translate_def)
next
  case (Cons c w)
  obtain d where d: "convert_to_cyrillic [c] = [d]" using convert_length1(2) by blast
  have "convert_to_latin (convert_to_cyrillic (c # w))
          = convert_to_latin [d] @ convert_to_latin (convert_to_cyrillic w)"
    using d convert_Cons(1)[of d "convert_to_cyrillic w"] convert_Cons(2)[of c w] by simp
  moreover have "convert_to_latin [d] = [c]"
    using Cons.prems convert_char_back_latin[of c] d by simp
  ultimately show ?case using Cons by simp
qed

lemma cyrillic_of_latin:
  "set w \<inter> set latin_chars = {} \<Longrightarrow> convert_to_cyrillic (convert_to_latin w) = w"
proof (induction w)
  case Nil
  then show ?case by (simp add: convert_to_latin_def convert_to_cyrillic_def translate_def)
next
  case (Cons c w)
  obtain d where d: "convert_to_latin [c] = [d]" using convert_length1(1) by blast
  have "convert_to_cyrillic (convert_to_latin (c # w))
          = convert_to_cyrillic [d] @ convert_to_cyrillic (convert_to_latin w)"
    using d convert_Cons(2)[of d "convert_to_latin w"] convert_Cons(1)[of c w] by simp
  moreover have "convert_to_cyrillic [d] = [c]"
    using Cons.prems convert_char_back_cyrillic[of c] d by simp
  ultimately show ?case using Cons by simp
qed

text \<open>
  C9: on a string with no character of the Cyrillic homoglyph set, converting to Cyrillic
  and back to Latin changes nothing; on a string with no character of the Latin homoglyph
  set, converting to Latin and back to Cyrillic changes nothing.
\<close>

theorem homoglyph_maps_inverse:
  "(set w \<inter> set cyrillic_chars = {} \<longrightarrow> convert_to_latin (convert_to_cyrillic w) = w)
   \<and> (set w \<inter> set latin_chars = {} \<longrightarrow> convert_to_cyrillic (convert_to_latin w) = w)"
  using latin_of_cyrillic cyrillic_of_latin by blast

theorem homoglyph_maps_inverse_witness:
  "set (asc ''Kyiv'') \<inter> set cyrillic_chars = {}
   \<and> convert_to_latin (convert_to_cyrillic (asc ''Kyiv'')) = asc ''Kyiv''
   \<and> convert_to_cyrillic (asc ''Kyiv'') = [0x41A, 0x443, 0x456, 0x76]"
proof -
  have h: "set (asc ''Kyiv'') \<inter> set cyrillic_chars = {}"
    by (simp add: cyrillic_chars_def)
  have "convert_to_cyrillic (asc ''Kyiv'') = [0x41A, 0x443, 0x456, 0x76]"
    by (simp add: convert_to_cyrillic_def translate_def cyrillic_chars_def latin_chars_def)
  then show ?thesis
    using h homoglyph_maps_inverse[of "asc ''Kyiv''"] by simp
qed

subsection \<open>Roman numerals in the homoglyph resolver\<close>

text \<open>
  A word reaches the three cases only when it holds a Cyrillic letter and a Latin letter,
  and the first case asks that all its characters be Latin Roman-numeral letters: the two
  cannot hold together.
\<close>

lemma roman_case_unreachable:
  "\<not> is_valid_alphabet_mix word \<Longrightarrow> \<not> list_all (\<lambda>c. c \<in> set roman_numerals) word"
proof
  assume a: "\<not> is_valid_alphabet_mix word" and b: "list_all (\<lambda>c. c \<in> set roman_numerals) word"
  from a obtain c where c: "c \<in> set word" "c \<in> set full_cyrillic"
    by (auto simp: is_valid_alphabet_mix_def meets_def list_ex_iff)
  from c(2) have "0x400 \<le> c" by (auto simp: full_cyrillic_def)
  moreover from b c(1) have "c < 0x80" by (auto simp: list_all_iff roman_numerals_def)
  ultimately show False by simp
qed

lemma mixed_xix:
  "fix_word W text [0x425, 0x49, 0x425] = text"
  by (simp add: fix_word_def is_valid_alphabet_mix_def meets_def homoglyph_tables)

lemma findall_mixed_xix:
  "findall_words W [0x425, 0x49, 0x425] =
     (if W 0x425 then [[0x425, 0x49, 0x425]] else [[0x49]])"
  by (simp add: re_word_def ascii_alpha_def ascii_upper_letter_def ascii_lower_letter_def)

lemma findall_cyr_xix:
  "findall_words W [0x425, 0x406, 0x425] =
     (if W 0x425 then if W 0x406 then [[0x425, 0x406, 0x425]] else [[0x425], [0x425]]
      else if W 0x406 then [[0x406]] else [])"
  by (simp add: re_word_def ascii_alpha_def ascii_upper_letter_def ascii_lower_letter_def)

lemma one_script:
  "\<not> meets word full_latin \<or> \<not> meets word full_cyrillic \<Longrightarrow> fix_word W text word = text"
  by (auto simp add: fix_word_def is_valid_alphabet_mix_def)

text \<open>
  C2 at its own example: the token made of Cyrillic \<open>U+0425\<close>, Latin \<open>I\<close> and Cyrillic
  \<open>U+0425\<close> mixes the scripts, its Latin form \<open>XIX\<close> matches the Roman-numeral pattern,
  and the resolver returns it unchanged; so does the all-Cyrillic spelling with
  \<open>U+0406\<close>. The claim asks for \<open>XIX\<close>.
\<close>

theorem roman_numeral_not_coerced:
  "fix_homoglyph_errors W [0x425, 0x49, 0x425] = [0x425, 0x49, 0x425]
   \<and> fix_homoglyph_errors W [0x425, 0x406, 0x425] = [0x425, 0x406, 0x425]
   \<and> convert_to_latin [0x425, 0x49, 0x425] = asc ''XIX''
   \<and> convert_to_latin [0x425, 0x406, 0x425] = asc ''XIX''
   \<and> roman_fullmatch W (asc ''XIX'')"
proof -
  have 1: "fix_homoglyph_errors W [0x425, 0x49, 0x425] = [0x425, 0x49, 0x425]"
    by (simp add: fix_homoglyph_errors_def findall_mixed_xix mixed_xix one_script meets_def
        full_cyrillic_def del: findall_words.simps)
  have 2: "fix_homoglyph_errors W [0x425, 0x406, 0x425] = [0x425, 0x406, 0x425]"
    by (simp add: fix_homoglyph_errors_def findall_cyr_xix one_script meets_def full_latin_def
        del: findall_words.simps)
  have 3: "convert_to_latin [0x425, 0x49, 0x425] = asc ''XIX''"
    "convert_to_latin [0x425, 0x406, 0x425] = asc ''XIX''"
    by (simp_all add: convert_to_latin_def translate_def cyrillic_chars_def latin_chars_def)
  have 4: "roman_fullmatch W (asc ''XIX'')"
    by (simp add: roman_fullmatch_def re_fullmatch_def rx_plus_def rx_roman_def rx_seq_def
        rx_alt_def rx_opt_def rx_eps_def rx_chr_def rx_cls_def re_word_def ascii_alpha_def
        ascii_upper_letter_def eval_nat_numeral)
  from 1 2 3 4 show ?thesis by simp
qed

subsection \<open>Text cleaning\<close>

lemmas clean_tables = superscript_digits_def subscript_digits_def char_conversion_def
  chars_to_delete_def punctuation_rules_def

lemma translate_other: "c \<notin> set src \<Longrightarrow> translate src dst [c] = [c]"
proof -
  assume "c \<notin> set src"
  then have "c \<notin> fst ` set (rev (zip src dst))"
    by (auto dest: set_zip_leftD)
  then have "map_of (rev (zip src dst)) c = None"
    by (simp add: map_of_eq_None_iff)
  then show ?thesis by (simp add: translate_def)
qed

lemma join_get_other: "c \<notin> set (map fst table) \<Longrightarrow> join_get table [c] = [c]"
proof -
  assume "c \<notin> set (map fst table)"
  then have "map_of (rev table) c = None"
    by (simp add: map_of_eq_None_iff)
  then show ?thesis by (simp add: join_get_def)
qed

lemma char_passes_other: "c \<notin> set table_keys \<Longrightarrow> char_passes [c] = [c]"
  by (simp add: table_keys_def char_passes_def translate_other join_get_other)

lemma char_passes_keys:
  "char_passes [0x2070] = [0x30]" "char_passes [0xB9] = [0x31]" "char_passes [0xB2] = [0x32]"
  "char_passes [0xB3] = [0x33]" "char_passes [0x2074] = [0x34]" "char_passes [0x2075] = [0x35]"
  "char_passes [0x2076] = [0x36]" "char_passes [0x2077] = [0x37]" "char_passes [0x2078] = [0x38]"
  "char_passes [0x2079] = [0x39]" "char_passes [0x2080] = [0x30]" "char_passes [0x2081] = [0x31]"
  "char_passes [0x2082] = [0x32]" "char_passes [0x2083] = [0x33]" "char_passes [0x2084] = [0x34]"
  "char_passes [0x2085] = [0x35]" "char_passes [0x2086] = [0x36]" "char_passes [0x2087] = [0x37]"
  "char_passes [0x2088] = [0x38]" "char_passes [0x2089] = [0x39]" "char_passes [0xC6] = [0x41, 0x45]"
  "char_passes [0xE6] = [0x61, 0x65]" "char_passes [0x152] = [0x4F, 0x45]" "char_passes [0x153] = [0x6F, 0x65]"
  "char_passes [0x110] = [0x44]" "char_passes [0x111] = [0x64]" "char_passes [0xD0] = [0x44]"
  "char_passes [0xF0] = [0x64]" "char_passes [0x131] = [0x69]" "char_passes [0x1A0] = [0x4F]"
  "char_passes [0x1A1] = [0x6F]" "char_passes [0x1AF] = [0x55]" "char_passes [0x1B0] = [0x75]"
  "char_passes [0xD8] = [0x4F]" "char_passes [0xF8] = [0x6F]" "char_passes [0xDE] = [0x54, 0x48]"
  "char_passes [0xFE] = [0x74, 0x68]" "char_passes [0xDF] = [0x53, 0x53]" "char_passes [0xA9] = []"
  "char_passes [0x2117] = []" "char_passes [0xAE] = []" "char_passes [0x2122] = []"
  "char_passes [0xB0] = []" "char_passes [0xB1] = []" "char_passes [0x2030] = []"
  "char_passes [0x2BE] = []" "char_passes [0x2BF] = []" "char_passes [0xB7] = []"
  "char_passes [0x21] = [0x20]" "char_passes [0x22] = [0x20]" "char_passes [0x27] = []"
  "char_passes [0x28] = [0x20]" "char_passes [0x29] = [0x20]" "char_passes [0x2D] = [0x2D]"
  "char_passes [0x5B] = []" "char_passes [0x5D] = []" "char_passes [0x7B] = [0x20]"
  "char_passes [0x7D] = [0x20]" "char_passes [0x3C] = [0x20]" "char_passes [0x3E] = [0x20]"
  "char_passes [0x3B] = [0x20]" "char_passes [0x3A] = [0x20]" "char_passes [0x2E] = [0x2E]"
  "char_passes [0x3F] = [0x20]" "char_passes [0xBF] = [0x20]" "char_passes [0xA1] = [0x20]"
  "char_passes [0x2C] = [0x20]" "char_passes [0x2F] = [0x20]" "char_passes [0x5C] = [0x20]"
  "char_passes [0x40] = [0x40]" "char_passes [0x26] = [0x26]" "char_passes [0x2A] = [0x20]"
  "char_passes [0x7C] = [0x20]" "char_passes [0x25] = [0x20]" "char_passes [0x3D] = [0x20]"
  "char_passes [0x2B] = [0x2B]" "char_passes [0x2212] = [0x2D]" "char_passes [0x2124] = [0x20]"
  "char_passes [0xD7] = [0x78]" "char_passes [0xF7] = [0x2F]" "char_passes [0x2018] = [0x20]"
  "char_passes [0x2019] = [0x20]" "char_passes [0x201B] = [0x20]" "char_passes [0x201C] = [0x20]"
  "char_passes [0x201D] = [0x20]" "char_passes [0x201E] = [0x20]" "char_passes [0x2027] = [0x20]"
  by (simp_all add: char_passes_def join_get_def translate_def clean_tables)

lemma char_passes_outputs:
  "char_passes [0x20] = [0x20]" "char_passes [0x26] = [0x26]" "char_passes [0x2B] = [0x2B]"
  "char_passes [0x2D] = [0x2D]" "char_passes [0x2E] = [0x2E]" "char_passes [0x30] = [0x30]"
  "char_passes [0x31] = [0x31]" "char_passes [0x32] = [0x32]" "char_passes [0x33] = [0x33]"
  "char_passes [0x34] = [0x34]" "char_passes [0x35] = [0x35]" "char_passes [0x36] = [0x36]"
  "char_passes [0x37] = [0x37]" "char_passes [0x38] = [0x38]" "char_passes [0x39] = [0x39]"
  "char_passes [0x40] = [0x40]" "char_passes [0x41] = [0x41]" "char_passes [0x44] = [0x44]"
  "char_passes [0x45] = [0x45]" "char_passes [0x48] = [0x48]" "char_passes [0x4F] = [0x4F]"
  "char_passes [0x53] = [0x53]" "char_passes [0x54] = [0x54]" "char_passes [0x55] = [0x55]"
  "char_passes [0x61] = [0x61]" "char_passes [0x64] = [0x64]" "char_passes [0x65] = [0x65]"
  "char_passes [0x68] = [0x68]" "char_passes [0x69] = [0x69]" "char_passes [0x6F] = [0x6F]"
  "char_passes [0x74] = [0x74]" "char_passes [0x75] = [0x75]" "char_passes [0x78] = [0x78]"
  by (simp_all add: char_passes_def join_get_def translate_def clean_tables)

lemma char_passes_fixed:
  assumes "c \<noteq> 0xF7" "d \<in> set (char_passes [c])"
  shows "char_passes [d] = [d]"
proof (cases "c \<in> set table_keys")
  case False
  then show ?thesis using assms char_passes_other[of c] by simp
next
  case True
  then have "c \<in> set table_keys \<and> c \<noteq> 0xF7 \<and> d \<in> set (char_passes [c])"
    using assms by simp
  then show ?thesis
    apply (simp add: table_keys_def clean_tables)
    apply (elim conjE disjE)
    apply (auto simp add: char_passes_keys char_passes_outputs)
    done
qed

lemma collapse_hd:
  "x \<noteq> [] \<Longrightarrow> \<not> is_space (hd x) \<Longrightarrow> collapse_spaces x \<noteq> [] \<and> hd (collapse_spaces x) = hd x"
  by (cases x) auto

lemma collapse_Nil: "x = [] \<Longrightarrow> collapse_spaces x = []"
  by simp

lemma tidy_collapse: "tidy (collapse_spaces x)"
proof (induction x rule: collapse_spaces.induct)
  case 1
  then show ?case by simp
next
  case (2 c cs)
  show ?case
  proof (cases "is_space c")
    case True
    have "collapse_spaces (dropWhile is_space cs) = []
        \<or> \<not> is_space (hd (collapse_spaces (dropWhile is_space cs)))"
    proof (cases "dropWhile is_space cs = []")
      case True
      then show ?thesis by (simp only: collapse_Nil) simp
    next
      case False
      then have "\<not> is_space (hd (dropWhile is_space cs))"
        using hd_dropWhile[of is_space cs] by blast
      then show ?thesis using False collapse_hd[of "dropWhile is_space cs"] by simp
    qed
    then show ?thesis using True 2 by simp
  next
    case False
    then show ?thesis using 2 by simp
  qed
qed

lemma collapse_tidy: "tidy o' \<Longrightarrow> collapse_spaces o' = o'"
proof (induction o')
  case Nil
  then show ?case by simp
next
  case (Cons c cs)
  then have "is_space c \<Longrightarrow> dropWhile is_space cs = cs"
    by (cases cs) auto
  then show ?case using Cons by auto
qed

lemma tidy_append: "tidy (y @ z) \<Longrightarrow> tidy y \<and> tidy z"
proof (induction y)
  case Nil
  then show ?case by simp
next
  case (Cons c y)
  then show ?case by (cases y) auto
qed

lemma tidy_strip: "tidy x \<Longrightarrow> tidy (strip x)"
proof -
  assume a: "tidy x"
  have "x = takeWhile is_space x @ dropWhile is_space x" by simp
  then have b: "tidy (dropWhile is_space x)" using a tidy_append by metis
  let ?v = "dropWhile is_space x"
  have "rev ?v = takeWhile is_space (rev ?v) @ dropWhile is_space (rev ?v)" by simp
  then have "?v = strip x @ rev (takeWhile is_space (rev ?v))"
    unfolding strip_def by (metis rev_append rev_rev_ident)
  then show ?thesis using b tidy_append by metis
qed

lemma dropWhile_ends:
  "dropWhile P x = [] \<or> (\<not> P (hd (dropWhile P x)) \<and> last (dropWhile P x) = last x)"
proof (cases "dropWhile P x = []")
  case True
  then show ?thesis by simp
next
  case False
  have "x = takeWhile P x @ dropWhile P x" by simp
  then have "last x = last (dropWhile P x)" using False by (metis last_appendR)
  then show ?thesis using hd_dropWhile[of P x] False by simp
qed

lemma strip_ends:
  "strip x = [] \<or> (\<not> is_space (hd (strip x)) \<and> \<not> is_space (last (strip x)))"
proof (cases "strip x = []")
  case True
  then show ?thesis by simp
next
  case False
  let ?v = "dropWhile is_space x"
  let ?w = "dropWhile is_space (rev ?v)"
  have w: "?w \<noteq> []" using False by (simp add: strip_def)
  have v: "?v \<noteq> []"
  proof
    assume "?v = []"
    then have "?w = []" by (simp only: rev.simps dropWhile.simps)
    then show False using w by simp
  qed
  have 1: "\<not> is_space (hd ?w)" "last ?w = last (rev ?v)"
    using dropWhile_ends[of is_space "rev ?v"] w by auto
  have 2: "\<not> is_space (hd ?v)" using dropWhile_ends[of is_space x] v by auto
  have "hd (strip x) = last ?w" "last (strip x) = hd ?w"
    using w by (simp_all add: strip_def hd_rev last_rev)
  moreover have "last (rev ?v) = hd ?v" using v by (simp add: last_rev)
  ultimately show ?thesis using 1 2 by simp
qed

lemma strip_fixed:
  assumes "y = [] \<or> (\<not> is_space (hd y) \<and> \<not> is_space (last y))"
  shows "strip y = y"
proof (cases "y = []")
  case True
  then show ?thesis by (simp add: strip_def)
next
  case False
  then have a: "\<not> is_space (hd y)" "\<not> is_space (last y)" using assms by auto
  have "dropWhile is_space y = y" using False a(1) by (cases y) auto
  moreover have "dropWhile is_space (rev y) = rev y"
    using False a(2) by (cases "rev y") (auto simp: last_rev hd_rev[symmetric])
  ultimately show ?thesis by (simp add: strip_def)
qed

lemma strip_strip: "strip (strip x) = strip x"
  using strip_fixed[OF strip_ends] .

lemma char_passes_append: "char_passes (a @ b) = char_passes a @ char_passes b"
  by (simp add: char_passes_def translate_def join_get_def)

lemma char_passes_Nil: "char_passes [] = []"
  by (simp add: char_passes_def translate_def join_get_def)

lemma char_passes_Cons: "char_passes (c # cs) = char_passes [c] @ char_passes cs"
  using char_passes_append[of "[c]" cs] by simp

lemma set_char_passes: "d \<in> set (char_passes s) \<Longrightarrow> \<exists>c\<in>set s. d \<in> set (char_passes [c])"
proof (induction s)
  case Nil
  then show ?case by (simp add: char_passes_Nil)
next
  case (Cons c s)
  then show ?case using char_passes_Cons[of c s] by auto
qed

lemma char_passes_id: "\<forall>d\<in>set t. char_passes [d] = [d] \<Longrightarrow> char_passes t = t"
proof (induction t)
  case Nil
  then show ?case by (simp add: char_passes_Nil)
next
  case (Cons c t)
  then show ?case using char_passes_Cons[of c t] by simp
qed

lemma set_collapse:
  "d \<in> set (collapse_spaces x) \<Longrightarrow> d = 0x20 \<or> (d \<in> set x \<and> \<not> is_space d)"
proof (induction x rule: collapse_spaces.induct)
  case 1
  then show ?case by simp
next
  case (2 c cs)
  then show ?case by (auto split: if_splits dest: set_dropWhileD)
qed

lemma set_strip: "d \<in> set (strip x) \<Longrightarrow> d \<in> set x"
  unfolding strip_def by (auto dest!: set_dropWhileD)

lemma passes_control:
  assumes "d \<in> set (char_passes [c])" "is_control d"
  shows "d = c"
proof (cases "c \<in> set table_keys")
  case False
  then show ?thesis using assms char_passes_other[of c] by simp
next
  case True
  then have "c \<in> set table_keys \<and> d \<in> set (char_passes [c]) \<and> is_control d"
    using assms by simp
  then show ?thesis
    apply (simp add: table_keys_def clean_tables)
    apply (elim conjE disjE)
    apply (auto simp add: char_passes_keys is_control_def)
    done
qed

lemma clean_text_passes:
  "clean_text (Str s) =
     (if strip s = [] then []
      else filter (\<lambda>c. \<not> is_control c) (strip (collapse_spaces (char_passes s))))"
  by (simp add: clean_text_def char_passes_def Let_def)

lemma clean_text_idem:
  assumes h1: "0xF7 \<notin> set s" and h2: "\<forall>c\<in>set s. is_control c \<longrightarrow> is_space c"
  shows "clean_text (Str (clean_text (Str s))) = clean_text (Str s)"
proof (cases "strip s = []")
  case True
  then show ?thesis by (simp add: clean_text_passes strip_def)
next
  case False
  define t where "t = strip (collapse_spaces (char_passes s))"
  have src: "d = 0x20 \<or> (\<exists>c\<in>set s. d \<in> set (char_passes [c]) \<and> \<not> is_space d)"
    if "d \<in> set t" for d
    using that set_strip[of d "collapse_spaces (char_passes s)"]
      set_collapse[of d "char_passes s"] set_char_passes[of d s]
    unfolding t_def by blast
  have noctl: "\<not> is_control d" if dt: "d \<in> set t" for d
  proof
    assume c: "is_control d"
    then have "d \<noteq> 0x20" by (auto simp: is_control_def)
    then obtain c' where c': "c' \<in> set s" "d \<in> set (char_passes [c'])" "\<not> is_space d"
      using src[OF dt] by blast
    then have "d = c'" using passes_control c by blast
    then show False using h2 c c' by blast
  qed
  then have "filter (\<lambda>c. \<not> is_control c) t = t" by simp
  then have first: "clean_text (Str s) = t"
    using False by (simp add: clean_text_passes t_def)
  have "char_passes [d] = [d]" if dt: "d \<in> set t" for d
  proof (cases "d = 0x20")
    case True
    then show ?thesis by (simp add: char_passes_outputs)
  next
    case False
    then obtain c' where c': "c' \<in> set s" "d \<in> set (char_passes [c'])"
      using src[OF dt] by blast
    then have "c' \<noteq> 0xF7" using h1 by auto
    then show ?thesis using char_passes_fixed c'(2) by blast
  qed
  then have p: "char_passes t = t" using char_passes_id by blast
  have "tidy t" unfolding t_def using tidy_strip tidy_collapse by blast
  then have c: "collapse_spaces t = t" by (rule collapse_tidy)
  have s: "strip t = t" unfolding t_def by (rule strip_strip)
  have "clean_text (Str t) = t"
    using p c s \<open>filter (\<lambda>c. \<not> is_control c) t = t\<close> by (simp add: clean_text_passes)
  then show ?thesis using first by simp
qed

lemma char_passes_plain:
  "char_passes [0x02] = [0x02]" "char_passes [0x09] = [0x09]" "char_passes [0x4A] = [0x4A]"
  by (simp_all add: char_passes_def join_get_def translate_def clean_tables)

lemma char_passes_Cons2: "char_passes (c # d # cs) = char_passes [c] @ char_passes (d # cs)"
  by (rule char_passes_Cons)

lemmas clean_eval = clean_text_passes strip_def is_space_def is_control_def char_passes_Cons2
  char_passes_keys char_passes_outputs char_passes_plain

text \<open>
  C5, as the claim states it, fails in two ways. The division sign becomes a slash, and a
  slash becomes a space on the next run. A control character that is not whitespace is
  removed after the whitespace has been collapsed, so the spaces on its two sides are
  left adjacent and only the next run merges them.
\<close>

theorem clean_text_twice_counterexample:
  "clean_text (Str [0x61, 0xF7, 0x65]) = asc ''a/e''
   \<and> clean_text (Str (asc ''a/e'')) = asc ''a e''
   \<and> clean_text (Str [0x61, 0x20, 0x02, 0x20, 0x65]) = asc ''a  e''
   \<and> clean_text (Str (asc ''a  e'')) = asc ''a e''"
  by (simp add: clean_eval)

text \<open>
  C5, amended: on every input that holds no division sign (U+00F7) and no control
  character other than whitespace, cleaning the cleaned text gives the cleaned text again.
\<close>

theorem clean_text_idempotent:
  assumes "0xF7 \<notin> set s" and "\<forall>c\<in>set s. is_control c \<longrightarrow> is_space c"
  shows "clean_text (Str (clean_text (Str s))) = clean_text (Str s)"
  using assms by (rule clean_text_idem)

theorem clean_text_idempotent_witness:
  "clean_text (Str (clean_text (Str [0x20, 0xDF, 0x2C, 0x20, 0x28, 0x4A, 0x2E, 0x29, 0xB2, 0x09])))
     = clean_text (Str [0x20, 0xDF, 0x2C, 0x20, 0x28, 0x4A, 0x2E, 0x29, 0xB2, 0x09])
   \<and> clean_text (Str [0x20, 0xDF, 0x2C, 0x20, 0x28, 0x4A, 0x2E, 0x29, 0xB2, 0x09])
     = asc ''SS J. 2''"
proof -
  have "clean_text (Str [0x20, 0xDF, 0x2C, 0x20, 0x28, 0x4A, 0x2E, 0x29, 0xB2, 0x09])
          = asc ''SS J. 2''"
    by (simp add: clean_eval)
  moreover have
    "clean_text (Str (clean_text (Str [0x20, 0xDF, 0x2C, 0x20, 0x28, 0x4A, 0x2E, 0x29, 0xB2, 0x09])))
       = clean_text (Str [0x20, 0xDF, 0x2C, 0x20, 0x28, 0x4A, 0x2E, 0x29, 0xB2, 0x09])"
    by (rule clean_text_idempotent) (simp_all add: is_control_def is_space_def)
  ultimately show ?thesis by simp
qed

subsection \<open>Blocking keys\<close>

lemma ukr_code: "map_of (rev lang_map) (str_lower L (asc ''ukr'')) = Some (asc ''uk'')"
  by (simp add: lang_map_def str_lower_def ascii_lower_def ascii_upper_letter_def)

lemma key_of_cyrillic:
  "blocking_key_udf L (Str shevchenko_cyrillic) (Str (asc ''ukr'')) =
     (if soundex L (translit L shevchenko_cyrillic (asc ''uk'')) = [] then []
      else 0x428 # tl (soundex L (translit L shevchenko_cyrillic (asc ''uk''))))"
  by (simp add: blocking_key_udf_def custom_cyrillic_function_def ukr_code[simplified] Let_def
      shevchenko_cyrillic_def ascii_alpha_def ascii_upper_letter_def ascii_lower_letter_def)

lemma key_of_latin:
  "blocking_key_udf L (Str (asc ''Shevchenko'')) (Str []) = soundex L (asc ''Shevchenko'')"
  by (simp add: blocking_key_udf_def ascii_alpha_def ascii_upper_letter_def)

lemma soundex_shevchenko: "soundex_code (asc ''Shevchenko'') = asc ''S125''"
  by (simp add: soundex_code_def soundex_class_def ascii_upper_def ascii_lower_letter_def)

lemma translit_shevchenko: "translit_sample shevchenko_cyrillic = asc ''Shevchenko''"
  by (simp add: translit_sample_def shevchenko_cyrillic_def)

text \<open>
  C4, as the claim states it, fails: the key of the Cyrillic record starts with the
  Cyrillic letter it was re-prefixed with, the key of the Latin record with \<open>S\<close>.
\<close>

theorem shevchenko_keys_counterexample:
  "blocking_key_udf sample_packages (Str shevchenko_cyrillic) (Str (asc ''ukr''))
     \<noteq> blocking_key_udf sample_packages (Str (asc ''Shevchenko'')) (Str [])"
  by (simp add: key_of_cyrillic[simplified] key_of_latin[simplified] sample_packages_def soundex_shevchenko[simplified]
      translit_shevchenko[simplified])

text \<open>
  C4, amended: when the transliteration of the Cyrillic name is \<open>Shevchenko\<close> and its
  phonetic code starts with \<open>S\<close>, the key of the Cyrillic record is that code with the
  first character replaced by the Cyrillic \<open>U+0428\<close>, and the key of the Latin record is
  the code itself: the two keys agree from the second character on and are not equal.
\<close>

theorem shevchenko_keys:
  assumes "translit L shevchenko_cyrillic (asc ''uk'') = asc ''Shevchenko''"
    and "soundex L (asc ''Shevchenko'') \<noteq> []"
    and "hd (soundex L (asc ''Shevchenko'')) = 0x53"
  shows "blocking_key_udf L (Str shevchenko_cyrillic) (Str (asc ''ukr''))
           = 0x428 # tl (soundex L (asc ''Shevchenko''))
       \<and> blocking_key_udf L (Str (asc ''Shevchenko'')) (Str []) = soundex L (asc ''Shevchenko'')
       \<and> tl (blocking_key_udf L (Str shevchenko_cyrillic) (Str (asc ''ukr'')))
           = tl (blocking_key_udf L (Str (asc ''Shevchenko'')) (Str []))
       \<and> blocking_key_udf L (Str shevchenko_cyrillic) (Str (asc ''ukr''))
           \<noteq> blocking_key_udf L (Str (asc ''Shevchenko'')) (Str [])"
proof -
  have 1: "blocking_key_udf L (Str shevchenko_cyrillic) (Str (asc ''ukr''))
             = 0x428 # tl (soundex L (asc ''Shevchenko''))"
    using assms by (simp add: key_of_cyrillic[simplified])
  have 2: "blocking_key_udf L (Str (asc ''Shevchenko'')) (Str []) = soundex L (asc ''Shevchenko'')"
    by (rule key_of_latin)
  have "hd (0x428 # tl (soundex L (asc ''Shevchenko''))) \<noteq> hd (soundex L (asc ''Shevchenko''))"
    using assms(3) by simp
  then have "0x428 # tl (soundex L (asc ''Shevchenko'')) \<noteq> soundex L (asc ''Shevchenko'')"
    by metis
  then show ?thesis using 1 2 by simp
qed

theorem shevchenko_keys_witness:
  "blocking_key_udf sample_packages (Str shevchenko_cyrillic) (Str (asc ''ukr''))
     = 0x428 # asc ''125''
   \<and> blocking_key_udf sample_packages (Str (asc ''Shevchenko'')) (Str []) = asc ''S125''"
proof -
  have "translit sample_packages shevchenko_cyrillic (asc ''uk'') = asc ''Shevchenko''"
    by (simp add: sample_packages_def translit_shevchenko[simplified])
  moreover have "soundex sample_packages (asc ''Shevchenko'') = asc ''S125''"
    by (simp add: sample_packages_def soundex_shevchenko[simplified])
  ultimately show ?thesis
    using shevchenko_keys[of sample_packages] by simp
qed

lemma soundex_code_first:
  "s \<noteq> [] \<Longrightarrow> soundex_code s \<noteq> [] \<and> hd (soundex_code s) = ascii_upper (hd s)"
  by (simp add: soundex_code_def Let_def hd_map)

lemma soundex_smith:
  "soundex_code (asc ''smith'') = asc ''S530''" "soundex_code (asc ''Smith'') = asc ''S530''"
  "soundex_code (asc ''Jones'') = asc ''J520''"
  by (simp_all add: soundex_code_def soundex_class_def ascii_upper_def ascii_lower_letter_def)

text \<open>
  C6, as the claim states it, fails in its second half: the phonetic code starts with the
  first letter in upper case, so two names whose first letters differ only in case can
  have the same key.
\<close>

theorem first_letter_case_counterexample:
  "hd (asc ''smith'') \<noteq> hd (asc ''Smith'')
   \<and> ascii_alpha (hd (asc ''smith'')) \<and> ascii_alpha (hd (asc ''Smith''))
   \<and> blocking_key_udf sample_packages (Str (asc ''smith'')) (Str [])
       = blocking_key_udf sample_packages (Str (asc ''Smith'')) (Str [])"
  by (simp add: blocking_key_udf_def sample_packages_def soundex_smith[simplified] ascii_alpha_def
      ascii_upper_letter_def ascii_lower_letter_def)

text \<open>
  C6, amended: the key is a function of the pair of entry name and language (and of the
  library functions it calls); and when the phonetic code retains the first letter in
  upper case, two entry names of the ASCII branch whose first letters differ by more than
  case have different keys.
\<close>

theorem blocking_key_deterministic:
  assumes "\<forall>s. s \<noteq> [] \<and> ascii_alpha (hd s)
             \<longrightarrow> soundex L s \<noteq> [] \<and> hd (soundex L s) = ascii_upper (hd s)"
  shows "(e = e' \<and> lg = lg' \<longrightarrow> blocking_key_udf L e lg = blocking_key_udf L e' lg')
       \<and> (e1 \<noteq> [] \<and> e2 \<noteq> [] \<and> ascii_alpha (hd e1) \<and> ascii_alpha (hd e2)
            \<and> ascii_upper (hd e1) \<noteq> ascii_upper (hd e2)
            \<longrightarrow> blocking_key_udf L (Str e1) lg1 \<noteq> blocking_key_udf L (Str e2) lg2)"
proof -
  have "blocking_key_udf L (Str e1) lg1 \<noteq> blocking_key_udf L (Str e2) lg2"
    if h: "e1 \<noteq> []" "e2 \<noteq> []" "ascii_alpha (hd e1)" "ascii_alpha (hd e2)"
      "ascii_upper (hd e1) \<noteq> ascii_upper (hd e2)"
  proof -
    have "hd (soundex L e1) \<noteq> hd (soundex L e2)" using assms h by simp
    then have "soundex L e1 \<noteq> soundex L e2" by metis
    then show ?thesis using h by (simp add: blocking_key_udf_def)
  qed
  then show ?thesis by blast
qed

theorem blocking_key_deterministic_witness:
  "blocking_key_udf sample_packages (Str (asc ''Smith'')) (Str [])
     \<noteq> blocking_key_udf sample_packages (Str (asc ''Jones'')) (Str [])
   \<and> blocking_key_udf sample_packages (Str (asc ''Smith'')) (Str []) = asc ''S530''"
proof -
  have p: "\<forall>s. s \<noteq> [] \<and> ascii_alpha (hd s)
             \<longrightarrow> soundex sample_packages s \<noteq> []
                 \<and> hd (soundex sample_packages s) = ascii_upper (hd s)"
    using soundex_code_first by (simp add: sample_packages_def)
  have "asc ''Smith'' \<noteq> [] \<and> asc ''Jones'' \<noteq> [] \<and> ascii_alpha (hd (asc ''Smith''))
      \<and> ascii_alpha (hd (asc ''Jones''))
      \<and> ascii_upper (hd (asc ''Smith'')) \<noteq> ascii_upper (hd (asc ''Jones''))"
    by (simp add: ascii_alpha_def ascii_upper_letter_def ascii_upper_def ascii_lower_letter_def)
  then have "blocking_key_udf sample_packages (Str (asc ''Smith'')) (Str [])
     \<noteq> blocking_key_udf sample_packages (Str (asc ''Jones'')) (Str [])"
    using blocking_key_deterministic[OF p, of _ _ _ _ "asc ''Smith''" "asc ''Jones''"] by blast
  moreover have "blocking_key_udf sample_packages (Str (asc ''Smith'')) (Str []) = asc ''S530''"
    by (simp add: blocking_key_udf_def sample_packages_def soundex_smith[simplified] ascii_alpha_def
        ascii_upper_letter_def)
  ultimately show ?thesis by simp
qed

subsection \<open>Cluster assignments\<close>

lemma concat_batches: "0 < n \<Longrightarrow> concat (batches n xs) = xs"
proof (induction n xs rule: batches.induct)
  case (1 n xs)
  show ?case
  proof (cases "xs = []")
    case True
    then show ?thesis by simp
  next
    case False
    then have "concat (batches n xs) = take n xs @ concat (batches n (drop n xs))"
      using 1(2) by (subst batches.simps) simp
    then show ?thesis using 1 False by simp
  qed
qed

text \<open>
  C7, as the claim states it, fails: the program stores a pair for every row of the
  clustering frame and filters nothing. In the frame below the cluster ids 1 and 2 have
  one member each and both are stored; and the one entity 7 is stored under both ids.
\<close>

theorem cluster_rows_stored_counterexample:
  "length (members_of 1 split_entity) = 1
   \<and> insert_many (cluster_results split_entity) 10000 = Inr [[(7, 1), (7, 2)]]"
  by (simp add: members_of_def split_entity_def cluster_results_def insert_many_def)

text \<open>
  C7, amended: the rows stored are, in order, the pairs of entity id and cluster id of all
  rows of the clustering frame; a cluster id has as many stored rows as it has member rows
  in the frame, whatever that number is.
\<close>

theorem cluster_rows_stored:
  "(\<exists>bs. insert_many (cluster_results df_clusters) 10000 = Inr bs
         \<and> concat bs = map (\<lambda>r. (auth_id r, cluster_id r)) df_clusters
         \<and> length (filter (\<lambda>p. snd p = c) (concat bs)) = length (members_of c df_clusters))"
proof -
  have "concat (batches 10000 (cluster_results df_clusters)) = cluster_results df_clusters"
    by (rule concat_batches) simp
  moreover have "length (filter (\<lambda>p. snd p = c) (cluster_results df_clusters))
      = length (members_of c df_clusters)"
    by (simp add: cluster_results_def members_of_def filter_map comp_def)
  ultimately show ?thesis
    by (cases "df_clusters = []")
      (simp_all add: insert_many_def cluster_results_def del: batches.simps)
qed

subsection \<open>Choice of the canonical member\<close>

lemma drop_duplicates_subset: "set (drop_duplicates seen rs) \<subseteq> set rs"
  by (induction rs arbitrary: seen) auto

lemma drop_duplicates_length: "length (drop_duplicates seen rs) \<le> length rs"
  by (induction rs arbitrary: seen) (auto simp: le_SucI)

lemma drop_duplicates_fresh:
  "r \<in> set (drop_duplicates seen rs) \<Longrightarrow> source_authid r \<notin> set seen"
proof (induction rs arbitrary: seen)
  case Nil
  then show ?case by simp
next
  case (Cons a rs)
  show ?case
  proof (cases "source_authid a \<in> set seen")
    case True
    then show ?thesis using Cons by simp
  next
    case False
    then have "r = a \<or> r \<in> set (drop_duplicates (source_authid a # seen) rs)"
      using Cons.prems by simp
    then show ?thesis
    proof
      assume "r = a"
      then show ?thesis using False by simp
    next
      assume "r \<in> set (drop_duplicates (source_authid a # seen) rs)"
      then have "source_authid r \<notin> set (source_authid a # seen)" by (rule Cons.IH)
      then show ?thesis by simp
    qed
  qed
qed

lemma drop_duplicates_distinct: "distinct (map source_authid (drop_duplicates seen rs))"
proof (induction rs arbitrary: seen)
  case Nil
  then show ?case by simp
next
  case (Cons r rs)
  have "source_authid r \<notin> source_authid ` set (drop_duplicates (source_authid r # seen) rs)"
  proof
    assume "source_authid r \<in> source_authid ` set (drop_duplicates (source_authid r # seen) rs)"
    then obtain x where x: "x \<in> set (drop_duplicates (source_authid r # seen) rs)"
      "source_authid x = source_authid r" by auto
    then have "source_authid x \<notin> set (source_authid r # seen)"
      using drop_duplicates_fresh by blast
    then show False using x(2) by simp
  qed
  then show ?case using Cons by simp
qed

lemma dedupe_members_subset: "set (dedupe_members cluster) \<subseteq> set cluster"
  using drop_duplicates_subset[of "[]" "sort_key (\<lambda>r. (source_authid r, field r)) cluster"]
  by (simp add: dedupe_members_def)

lemma dedupe_members_length: "length (dedupe_members cluster) \<le> length cluster"
  using drop_duplicates_length[of "[]" "sort_key (\<lambda>r. (source_authid r, field r)) cluster"]
  by (simp add: dedupe_members_def)

lemma dedupe_members_distinct: "distinct (map source_authid (dedupe_members cluster))"
  by (simp add: dedupe_members_def drop_duplicates_distinct)

lemma hd_sort_key_least:
  assumes "xs \<noteq> []"
  shows "hd (sort_key f xs) \<in> set xs \<and> (\<forall>x\<in>set xs. f (hd (sort_key f xs)) \<le> f x)"
proof -
  obtain y ys where ys: "sort_key f xs = y # ys"
    using assms by (cases "sort_key f xs") (auto dest: arg_cong[where f = length])
  have "sorted (map f (y # ys))" using sorted_sort_key[of f xs] ys by simp
  then have "\<forall>x\<in>set (y # ys). f y \<le> f x" by auto
  moreover have "set (y # ys) = set xs" using set_sort[of f xs] ys by simp
  ultimately show ?thesis using ys by auto
qed

lemma pick_main_best:
  assumes "unique \<noteq> []"
  shows "pick_main unique \<in> set unique
       \<and> (\<forall>r\<in>set unique. the (used_count r) \<le> the (used_count (pick_main unique)))
       \<and> (\<forall>r\<in>set unique. the (used_count r) = the (used_count (pick_main unique))
             \<longrightarrow> row_id (pick_main unique) \<le> row_id r)"
proof -
  let ?U = "set (map (\<lambda>r. the (used_count r)) unique)"
  let ?m = "Max ?U"
  let ?tied = "filter (\<lambda>r. the (used_count r) = ?m) unique"
  have fin: "finite ?U" and ne: "?U \<noteq> {}" using assms by auto
  have "?m \<in> ?U" using Max_in[OF fin ne] .
  then have tied: "?tied \<noteq> []" by (auto simp: filter_empty_conv)
  have main: "pick_main unique = hd (sort_key row_id ?tied)"
    by (simp add: pick_main_def Let_def)
  have least: "pick_main unique \<in> set ?tied"
    "\<forall>x\<in>set ?tied. row_id (pick_main unique) \<le> row_id x"
    using hd_sort_key_least[OF tied, of row_id] main by auto
  then have uc: "the (used_count (pick_main unique)) = ?m" and mem: "pick_main unique \<in> set unique"
    by auto
  have "the (used_count r) \<le> ?m" if "r \<in> set unique" for r
    using that Max_ge[OF fin, of "the (used_count r)"] by auto
  then show ?thesis using uc mem least(2) by auto
qed

lemma group_links_eq:
  assumes "2 \<le> length (dedupe_members cluster)"
    and "\<forall>r\<in>set (dedupe_members cluster). used_count r \<noteq> None"
  shows "group_links domain cid cluster =
           Inr (map (merge_line domain cid (pick_main (dedupe_members cluster)))
                  (filter (\<lambda>r. source_authid r \<noteq> source_authid (pick_main (dedupe_members cluster)))
                     (dedupe_members cluster)))"
proof -
  have "2 \<le> length cluster" using assms(1) dedupe_members_length[of cluster] by simp
  moreover have "\<not> list_ex (\<lambda>r. used_count r = None) (dedupe_members cluster)"
    using assms(2) by (simp add: list_ex_iff)
  ultimately show ?thesis using assms(1) by (simp add: group_links_def Let_def)
qed

lemma others_count:
  assumes "distinct (map source_authid unique)" "m \<in> set unique"
  shows "length (filter (\<lambda>r. source_authid r \<noteq> source_authid m) unique) = length unique - 1"
  using assms
proof (induction unique)
  case Nil
  then show ?case by simp
next
  case (Cons r rs)
  show ?case
  proof (cases "r = m")
    case True
    then have "\<forall>x\<in>set rs. source_authid x \<noteq> source_authid m"
      using Cons.prems(1) by (auto simp: image_iff)
    then have "filter (\<lambda>r. source_authid r \<noteq> source_authid m) rs = rs" by simp
    then show ?thesis using True by simp
  next
    case False
    then have m: "m \<in> set rs" using Cons.prems(2) by simp
    then have "source_authid r \<noteq> source_authid m" using Cons.prems(1) by force
    moreover have "rs \<noteq> []" using m by auto
    ultimately show ?thesis using Cons m by (cases rs) auto
  qed
qed

text \<open>
  C8: in a group whose members, after removing repeated source authority ids, number at
  least two and all have a usage count, the canonical member is one of them, no member has
  a higher usage count, no member with the same usage count has a lower id, and the links
  emitted are exactly one from each other member to the canonical one: every link carries
  the canonical member's authority id and name as its canonical end, the group's cluster
  id and the server's domain, and the links' duplicate ends are, in order, the authority
  ids and names of the other members.
\<close>

theorem canonical_highest_usage_lowest_id:
  assumes "2 \<le> length (dedupe_members cluster)"
    and "\<forall>r\<in>set (dedupe_members cluster). used_count r \<noteq> None"
  shows "\<exists>main\<in>set (dedupe_members cluster).
           (\<forall>r\<in>set (dedupe_members cluster). the (used_count r) \<le> the (used_count main))
         \<and> (\<forall>r\<in>set (dedupe_members cluster).
               the (used_count r) = the (used_count main) \<longrightarrow> row_id main \<le> row_id r)
         \<and> group_links domain cid cluster =
             Inr (map (merge_line domain cid main)
                    (filter (\<lambda>r. source_authid r \<noteq> source_authid main) (dedupe_members cluster)))
         \<and> distinct (map source_authid (dedupe_members cluster))
         \<and> length (filter (\<lambda>r. source_authid r \<noteq> source_authid main) (dedupe_members cluster))
             = length (dedupe_members cluster) - 1
         \<and> (\<exists>ls. group_links domain cid cluster = Inr ls
               \<and> length ls = length (dedupe_members cluster) - 1
               \<and> list_all (\<lambda>l. canonical l = source_authid main
                                \<and> canonical_name l = full_name main
                                \<and> link_cluster l = cid
                                \<and> link_domain l = domain) ls
               \<and> map duplicate ls =
                   map source_authid
                     (filter (\<lambda>r. source_authid r \<noteq> source_authid main) (dedupe_members cluster))
               \<and> map duplicate_name ls =
                   map full_name
                     (filter (\<lambda>r. source_authid r \<noteq> source_authid main) (dedupe_members cluster))
               \<and> list_all (\<lambda>l. duplicate l \<noteq> source_authid main) ls)"
proof -
  let ?u = "dedupe_members cluster"
  let ?m = "pick_main ?u"
  let ?others = "filter (\<lambda>r. source_authid r \<noteq> source_authid ?m) ?u"
  let ?ls = "map (merge_line domain cid ?m) ?others"
  have ne: "?u \<noteq> []" using assms(1) by auto
  have best: "?m \<in> set ?u"
    "\<forall>r\<in>set ?u. the (used_count r) \<le> the (used_count ?m)"
    "\<forall>r\<in>set ?u. the (used_count r) = the (used_count ?m) \<longrightarrow> row_id ?m \<le> row_id r"
    using pick_main_best[OF ne] by auto
  have links: "group_links domain cid cluster = Inr ?ls"
    using group_links_eq[OF assms] .
  have cnt: "length ?others = length ?u - 1"
    using others_count[OF dedupe_members_distinct best(1)] .
  have len: "length ?ls = length ?u - 1" using cnt by simp
  have ends: "list_all (\<lambda>l. canonical l = source_authid ?m \<and> canonical_name l = full_name ?m
                              \<and> link_cluster l = cid \<and> link_domain l = domain) ?ls"
    by (simp add: list_all_iff merge_line_def)
  have dups: "map duplicate ?ls = map source_authid ?others"
    "map duplicate_name ?ls = map full_name ?others"
    by (simp_all add: merge_line_def comp_def)
  have other: "list_all (\<lambda>l. duplicate l \<noteq> source_authid ?m) ?ls"
    by (simp add: list_all_iff merge_line_def)
  have "\<exists>ls. group_links domain cid cluster = Inr ls
               \<and> length ls = length ?u - 1
               \<and> list_all (\<lambda>l. canonical l = source_authid ?m \<and> canonical_name l = full_name ?m
                                \<and> link_cluster l = cid \<and> link_domain l = domain) ls
               \<and> map duplicate ls = map source_authid ?others
               \<and> map duplicate_name ls = map full_name ?others
               \<and> list_all (\<lambda>l. duplicate l \<noteq> source_authid ?m) ls"
    using links len ends dups other by blast
  then show ?thesis
    using best links cnt dedupe_members_distinct[of cluster] by blast
qed

lemma tied_group_members: "dedupe_members tied_group = tied_group"
  by code_simp

theorem canonical_highest_usage_lowest_id_witness:
  "group_links (asc ''d'') 5 tied_group =
     Inr [\<lparr>link_domain = asc ''d'', canonical = asc ''202'', duplicate = asc ''201'',
           link_cluster = 5, canonical_name = asc ''B'', duplicate_name = asc ''A''\<rparr>,
          \<lparr>link_domain = asc ''d'', canonical = asc ''202'', duplicate = asc ''203'',
           link_cluster = 5, canonical_name = asc ''B'', duplicate_name = asc ''C''\<rparr>]
   \<and> source_authid (tied_group ! 1) = asc ''202''
   \<and> used_count (tied_group ! 0) = used_count (tied_group ! 1)
   \<and> row_id (tied_group ! 1) < row_id (tied_group ! 0)"
proof -
  have 1: "2 \<le> length (dedupe_members tied_group)"
    by (simp add: tied_group_members) (simp add: tied_group_def)
  have 2: "\<forall>r\<in>set (dedupe_members tied_group). used_count r \<noteq> None"
    by (simp add: tied_group_members) (simp add: tied_group_def)
  obtain main ls where m: "main \<in> set (dedupe_members tied_group)"
    "\<forall>r\<in>set (dedupe_members tied_group). the (used_count r) \<le> the (used_count main)"
    "\<forall>r\<in>set (dedupe_members tied_group).
        the (used_count r) = the (used_count main) \<longrightarrow> row_id main \<le> row_id r"
    and l: "group_links (asc ''d'') 5 tied_group = Inr ls"
    "length ls = length (dedupe_members tied_group) - 1"
    "list_all (\<lambda>l. canonical l = source_authid main \<and> canonical_name l = full_name main
                     \<and> link_cluster l = 5 \<and> link_domain l = asc ''d'') ls"
    "map duplicate ls =
       map source_authid
         (filter (\<lambda>r. source_authid r \<noteq> source_authid main) (dedupe_members tied_group))"
    "map duplicate_name ls =
       map full_name
         (filter (\<lambda>r. source_authid r \<noteq> source_authid main) (dedupe_members tied_group))"
    using canonical_highest_usage_lowest_id[OF 1 2, of "asc ''d''" 5] by blast
  have main: "main = tied_group ! 1"
    using m(1,2,3) by (simp add: tied_group_members) (auto simp: tied_group_def)
  have "length ls = 2" using l(2) by (simp add: tied_group_members) (simp add: tied_group_def)
  then obtain a b where ab: "ls = [a, b]"
    by (auto simp: length_Suc_conv eval_nat_numeral)
  have "a = \<lparr>link_domain = asc ''d'', canonical = asc ''202'', duplicate = asc ''201'',
           link_cluster = 5, canonical_name = asc ''B'', duplicate_name = asc ''A''\<rparr>"
    "b = \<lparr>link_domain = asc ''d'', canonical = asc ''202'', duplicate = asc ''203'',
           link_cluster = 5, canonical_name = asc ''B'', duplicate_name = asc ''C''\<rparr>"
    using l(3,4,5) ab main
    by (simp_all add: tied_group_members) (simp_all add: tied_group_def)
  then show ?thesis using l(1) ab by (simp add: tied_group_def)
qed

subsection \<open>Rows that take part in merge links\<close>

lemma group_links_members:
  assumes "group_links domain cid cluster = Inr ls" "l \<in> set ls"
  shows "link_cluster l = cid
       \<and> (\<exists>r\<in>set cluster. source_authid r = canonical l)
       \<and> (\<exists>r\<in>set cluster. source_authid r = duplicate l)"
proof -
  let ?u = "dedupe_members cluster"
  have big: "2 \<le> length ?u" and counts: "\<not> list_ex (\<lambda>r. used_count r = None) ?u"
    using assms by (auto simp: group_links_def Let_def split: if_splits)
  then have ne: "?u \<noteq> []" by auto
  have ls: "ls = map (merge_line domain cid (pick_main ?u))
                   (filter (\<lambda>r. source_authid r \<noteq> source_authid (pick_main ?u)) ?u)"
    using assms(1) big counts dedupe_members_length[of cluster]
    by (auto simp: group_links_def Let_def split: if_splits)
  then obtain rec where rec: "rec \<in> set ?u" "l = merge_line domain cid (pick_main ?u) rec"
    using assms(2) by auto
  have "pick_main ?u \<in> set cluster"
    using pick_main_best[OF ne] dedupe_members_subset[of cluster] by blast
  moreover have "rec \<in> set cluster" using rec(1) dedupe_members_subset[of cluster] by blast
  ultimately show ?thesis using rec(2) by (auto simp: merge_line_def)
qed

lemma collect_links_members:
  assumes "collect_links domain srv_grp keys = Inr ls" "l \<in> set ls"
  shows "(\<exists>r\<in>set srv_grp. cluster_id r = link_cluster l \<and> source_authid r = canonical l)
       \<and> (\<exists>r\<in>set srv_grp. cluster_id r = link_cluster l \<and> source_authid r = duplicate l)"
  using assms
proof (induction keys arbitrary: ls)
  case Nil
  then show ?case by simp
next
  case (Cons k keys)
  obtain cid lg where k: "k = (cid, lg)" by (cases k)
  let ?g = "filter (\<lambda>r. cluster_id r = cid \<and> lang r = Str lg) srv_grp"
  obtain xs ms where parts: "group_links domain cid ?g = Inr xs"
    "collect_links domain srv_grp keys = Inr ms" "ls = xs @ ms"
    using Cons.prems(1) k by (auto split: sum.splits)
  show ?case
  proof (cases "l \<in> set xs")
    case True
    then show ?thesis using group_links_members[OF parts(1) True] by auto
  next
    case False
    then have "l \<in> set ms" using Cons.prems(2) parts(3) by simp
    then show ?thesis using Cons.IH[OF parts(2)] by simp
  qed
qed

lemma server_links_members:
  assumes "(srv, ls) \<in> set (fst (server_links srv_map df srvs))" "l \<in> set ls"
  shows "(\<exists>r\<in>set df. server_id r = srv \<and> (field r = 200 \<or> field r = 400)
            \<and> cluster_id r = link_cluster l \<and> source_authid r = canonical l)
       \<and> (\<exists>r\<in>set df. server_id r = srv \<and> (field r = 200 \<or> field r = 400)
            \<and> cluster_id r = link_cluster l \<and> source_authid r = duplicate l)"
  using assms
proof (induction srvs)
  case Nil
  then show ?case by simp
next
  case (Cons s srvs)
  let ?grp = "filter (\<lambda>r. field r \<in> {200, 400}) (filter (\<lambda>r. server_id r = s) df)"
  show ?case
  proof (cases "(srv, ls) \<in> set (fst (server_links srv_map df srvs))")
    case True
    then show ?thesis using Cons.IH Cons.prems(2) by simp
  next
    case False
    then obtain domain where here: "srv = s" "collect_links domain ?grp (group_keys ?grp) = Inr ls"
      using Cons.prems(1)
      by (auto simp: Let_def split: if_splits option.splits sum.splits prod.splits)
    have "(\<exists>r\<in>set ?grp. cluster_id r = link_cluster l \<and> source_authid r = canonical l)
        \<and> (\<exists>r\<in>set ?grp. cluster_id r = link_cluster l \<and> source_authid r = duplicate l)"
      using collect_links_members[OF here(2) Cons.prems(2)] .
    then show ?thesis using here(1) by auto
  qed
qed

text \<open>
  C3, as the claim states it, fails: the filter keeps the fields 200 and 400. Two members of
  one cluster whose only rows are variant rows (field 400) get a merge link.
\<close>

theorem variant_rows_linked_counterexample:
  "list_all (\<lambda>r. field r = 400) variant_pair
   \<and> generate_links [7 \<mapsto> asc ''lib.example''] variant_pair =
       ([(7, [merge_line (asc ''lib.example'') 5 (variant_pair ! 0) (variant_pair ! 1)])], None)"
  by code_simp

text \<open>
  C3, amended: both ends of every merge link written for a server are source authority
  ids of rows of that server and of the link's cluster whose field is 200 or 400 (main or
  variant). A member that has only linked rows (field 700) on the server takes part in no
  link.
\<close>

theorem links_from_main_or_variant_rows:
  assumes "(srv, ls) \<in> set (fst (generate_links srv_map df_clusters))" and "l \<in> set ls"
  shows "(\<exists>r\<in>set df_clusters. server_id r = srv \<and> (field r = 200 \<or> field r = 400)
            \<and> cluster_id r = link_cluster l \<and> source_authid r = canonical l)
       \<and> (\<exists>r\<in>set df_clusters. server_id r = srv \<and> (field r = 200 \<or> field r = 400)
            \<and> cluster_id r = link_cluster l \<and> source_authid r = duplicate l)"
  using assms server_links_members unfolding generate_links_def by blast

theorem links_from_main_or_variant_rows_witness:
  "(7, [merge_line (asc ''lib.example'') 5 (linked_and_main ! 1) (linked_and_main ! 2)])
      \<in> set (fst (generate_links [7 \<mapsto> asc ''lib.example''] linked_and_main))
   \<and> field (linked_and_main ! 0) = 700
   \<and> canonical (merge_line (asc ''lib.example'') 5 (linked_and_main ! 1) (linked_and_main ! 2))
       \<noteq> source_authid (linked_and_main ! 0)
   \<and> duplicate (merge_line (asc ''lib.example'') 5 (linked_and_main ! 1) (linked_and_main ! 2))
       \<noteq> source_authid (linked_and_main ! 0)"
proof -
  let ?l = "merge_line (asc ''lib.example'') 5 (linked_and_main ! 1) (linked_and_main ! 2)"
  have g: "generate_links [7 \<mapsto> asc ''lib.example''] linked_and_main = ([(7, [?l])], None)"
    by code_simp
  then have m: "(7, [?l]) \<in> set (fst (generate_links [7 \<mapsto> asc ''lib.example''] linked_and_main))"
    by simp
  have "\<exists>r\<in>set linked_and_main. server_id r = 7 \<and> (field r = 200 \<or> field r = 400)
          \<and> cluster_id r = link_cluster ?l \<and> source_authid r = canonical ?l"
    using links_from_main_or_variant_rows[OF m, of ?l] by simp
  then have "canonical ?l \<noteq> source_authid (linked_and_main ! 0)"
    by (auto simp: linked_and_main_def merge_line_def)
  moreover have "duplicate ?l \<noteq> source_authid (linked_and_main ! 0)"
    by (simp add: linked_and_main_def merge_line_def)
  moreover have "field (linked_and_main ! 0) = 700" by (simp add: linked_and_main_def)
  ultimately show ?thesis using m by simp
qed

end
